theory Spec2Isabelle
  imports Complex_Main
begin

section \<open>JavaScript values used by \<open>src/utils/cleaners.ts\<close>\<close>

text \<open>
  The two exported functions of \<open>cleaners.ts\<close>, \<open>parseCoordinates\<close> and \<open>exportToCSV\<close>,
  work on JavaScript strings and numbers. A string is a list of characters (code units
  up to 255; the functions treat a higher code unit as they treat any character that is
  neither a digit, a sign, a separator, a quote nor white space). A number is an
  IEEE-754 binary64 value: not-a-number, an infinity with its sign (\<open>True\<close> for the negative
  one), or a finite value, kept as the rational it denotes. The two zeros are one value
  here, as they are for \<open>===\<close>; nothing in \<open>cleaners.ts\<close> tells them apart.
\<close>

datatype number = NaN | Infinity bool | Num rat

datatype jsval = Undefined | Null | Str string | Number number

datatype exn = RangeError

subsection \<open>Rounding a real value to binary64\<close>

definition pow2 :: "int \<Rightarrow> rat" where
  "pow2 e = (if 0 \<le> e then 2 ^ nat e else 1 / 2 ^ nat (- e))"

definition pow10 :: "int \<Rightarrow> rat" where
  "pow10 e = (if 0 \<le> e then 10 ^ nat e else 1 / 10 ^ nat (- e))"

text \<open>\<open>numDigits b n\<close> is the number of digits of a positive \<open>n\<close> in base \<open>b\<close>.\<close>

function numDigits :: "int \<Rightarrow> int \<Rightarrow> int" where
  "numDigits b n = (if n \<le> 0 \<or> b \<le> 1 then 0 else 1 + numDigits b (n div b))"
  by pat_completeness auto
termination
  by (relation "measure (\<lambda>(b, n). nat n)") (auto simp: int_div_less_self)

declare numDigits.simps [simp del]

text \<open>\<open>ilog2 a\<close> and \<open>ilog10 a\<close> are the integer parts of the logarithms of a positive \<open>a\<close>.\<close>

definition ilog2 :: "rat \<Rightarrow> int" where
  "ilog2 a = (case quotient_of a of (p, q) \<Rightarrow>
     (let d = numDigits 2 p - numDigits 2 q
      in if pow2 d \<le> a then d else d - 1))"

definition ilog10 :: "rat \<Rightarrow> int" where
  "ilog10 a = (case quotient_of a of (p, q) \<Rightarrow>
     (let d = numDigits 10 p - numDigits 10 q
      in if pow10 d \<le> a then d else d - 1))"

definition round_half_even :: "rat \<Rightarrow> int" where
  "round_half_even x = (let f = \<lfloor>x\<rfloor>; d = x - of_int f
     in if d < 1 / 2 then f else if 1 / 2 < d then f + 1 else if even f then f else f + 1)"

text \<open>
  Round to nearest, ties to even, with a 53-bit significand, exponents from \<open>-1022\<close>
  (below which the spacing stays \<open>2 ^ -1074\<close>) to \<open>1023\<close> (above which the result is
  an infinity).
\<close>

definition to_double :: "rat \<Rightarrow> number" where
  "to_double x = (if x = 0 then Num 0 else
     (let a = \<bar>x\<bar>; e = max (ilog2 a) (- 1022); m = round_half_even (a / pow2 (e - 52))
      in if 1023 < e \<or> (e = 1023 \<and> 2 ^ 53 \<le> m) then Infinity (x < 0)
         else Num (sgn x * of_int m * pow2 (e - 52))))"

subsection \<open>Arithmetic: \<open>+\<close>, \<open>/\<close> by a count, \<open>isNaN\<close>\<close>

fun isNaN :: "number \<Rightarrow> bool" where
  "isNaN NaN = True"
| "isNaN _ = False"

fun num_add :: "number \<Rightarrow> number \<Rightarrow> number" where
  "num_add NaN _ = NaN"
| "num_add _ NaN = NaN"
| "num_add (Infinity s) (Infinity t) = (if s = t then Infinity s else NaN)"
| "num_add (Infinity s) (Num _) = Infinity s"
| "num_add (Num _) (Infinity t) = Infinity t"
| "num_add (Num x) (Num y) = to_double (x + y)"

text \<open>
  Both divisions of the source divide by a non-negative integer: \<open>parts.length\<close> and the
  literal \<open>2\<close>. A length is exact as a binary64 value, and a zero length is the positive zero.
\<close>

fun num_div :: "number \<Rightarrow> nat \<Rightarrow> number" where
  "num_div NaN _ = NaN"
| "num_div (Infinity s) _ = Infinity s"
| "num_div (Num x) n =
     (if n = 0 then (if x = 0 then NaN else Infinity (x < 0)) else to_double (x / of_nat n))"

subsection \<open>Characters\<close>

definition isDigit :: "char \<Rightarrow> bool" where
  "isDigit c = (48 \<le> (of_char c :: int) \<and> (of_char c :: int) \<le> 57)"

definition digitVal :: "char \<Rightarrow> int" where
  "digitVal c = of_char c - 48"

definition digitsVal :: "string \<Rightarrow> int" where
  "digitsVal ds = foldl (\<lambda>a c. 10 * a + digitVal c) 0 ds"

text \<open>White space and line terminators, as far as they are characters below 256.\<close>

definition isWhiteSpace :: "char \<Rightarrow> bool" where
  "isWhiteSpace c = ((of_char c :: int) \<in> {9, 10, 11, 12, 13, 32, 160})"

definition trim :: "string \<Rightarrow> string" where
  "trim s = rev (dropWhile isWhiteSpace (rev (dropWhile isWhiteSpace s)))"

text \<open>The decimal digits of a non-negative integer.\<close>

function showNat :: "int \<Rightarrow> string" where
  "showNat n = (if n < 10 then [char_of (48 + n)]
                else showNat (n div 10) @ [char_of (48 + n mod 10)])"
  by pat_completeness auto
termination
  by (relation "measure nat") auto

declare showNat.simps [simp del]

subsection \<open>\<open>parseFloat\<close>\<close>

text \<open>
  \<open>parseFloat\<close> drops leading white space and reads the longest prefix that is a
  \<open>StrDecimalLiteral\<close>: an optional sign, then \<open>Infinity\<close> or decimal digits with an
  optional fraction and an optional exponent. Whatever follows the prefix is ignored;
  if there is no such prefix the result is \<open>NaN\<close>. The value read is rounded to binary64.
\<close>

definition scanSign :: "string \<Rightarrow> bool \<times> string" where
  "scanSign s = (case s of
       [] \<Rightarrow> (False, [])
     | c # r \<Rightarrow> if c = CHR ''-'' then (True, r) else if c = CHR ''+'' then (False, r) else (False, s))"

definition scanExponent :: "string \<Rightarrow> int" where
  "scanExponent s = (case s of
       [] \<Rightarrow> 0
     | c # r \<Rightarrow>
         if c = CHR ''e'' \<or> c = CHR ''E'' then
           (case scanSign r of (neg, r') \<Rightarrow>
              (let ds = takeWhile isDigit r'
               in if ds = [] then 0 else if neg then - digitsVal ds else digitsVal ds))
         else 0)"

definition scanFraction :: "string \<Rightarrow> string \<times> string" where
  "scanFraction s = (case s of
       [] \<Rightarrow> ([], [])
     | c # r \<Rightarrow> if c = CHR ''.'' then (takeWhile isDigit r, dropWhile isDigit r) else ([], s))"

definition scanUnsigned :: "string \<Rightarrow> rat option" where
  "scanUnsigned s = (let ip = takeWhile isDigit s in
     (case scanFraction (dropWhile isDigit s) of (fp, r) \<Rightarrow>
        if ip = [] \<and> fp = [] then None
        else Some ((of_int (digitsVal ip) + of_int (digitsVal fp) / 10 ^ length fp)
                   * pow10 (scanExponent r))))"

definition parseFloat :: "string \<Rightarrow> number" where
  "parseFloat input = (case scanSign (dropWhile isWhiteSpace input) of (neg, u) \<Rightarrow>
     if take 8 u = ''Infinity'' then Infinity neg
     else (case scanUnsigned u of
             None \<Rightarrow> NaN
           | Some mv \<Rightarrow> to_double (if neg then - mv else mv)))"

subsection \<open>\<open>Number::toString\<close> and \<open>toFixed\<close>\<close>

text \<open>
  \<open>Number::toString\<close> prints the shortest decimal digit string that reads back as the
  same binary64 value: \<open>k\<close> digits \<open>s\<close> and a decimal point position \<open>n\<close> with
  \<open>s * 10 ^ (n - k)\<close> rounding to the value, \<open>k\<close> least, and of two such the one nearer
  the value. The search tries \<open>k = 1, \<dots>, 17\<close>; seventeen digits always identify a
  binary64 value.
\<close>

definition digitCandidates :: "rat \<Rightarrow> nat \<Rightarrow> (int \<times> int) list" where
  "digitCandidates x k = (let m = ilog10 x + 1; sc = x / pow10 (m - int k); lo = \<lfloor>sc\<rfloor>;
       up = (if lo + 1 = 10 ^ k then (10 ^ (k - 1), m + 1) else (lo + 1, m));
       both = (if sc - of_int lo \<le> 1 / 2 then [(lo, m), up] else [up, (lo, m)])
     in filter (\<lambda>(s, n). to_double (of_int s * pow10 (n - int k)) = Num x) both)"

fun shortestDigits :: "rat \<Rightarrow> nat \<Rightarrow> nat \<Rightarrow> nat \<times> int \<times> int" where
  "shortestDigits x k 0 = (k, \<lfloor>x / pow10 (ilog10 x + 1 - int k)\<rfloor>, ilog10 x + 1)"
| "shortestDigits x k (Suc fuel) = (case digitCandidates x k of
       [] \<Rightarrow> shortestDigits x (Suc k) fuel
     | (s, n) # _ \<Rightarrow> (k, s, n))"

definition positiveToString :: "rat \<Rightarrow> string" where
  "positiveToString x = (case shortestDigits x 1 17 of (k, s, n) \<Rightarrow>
     (let ds = showNat s in
      if int k \<le> n \<and> n \<le> 21 then ds @ replicate (nat (n - int k)) CHR ''0''
      else if 0 < n \<and> n \<le> 21 then take (nat n) ds @ ''.'' @ drop (nat n) ds
      else if - 6 < n \<and> n \<le> 0 then ''0.'' @ replicate (nat (- n)) CHR ''0'' @ ds
      else (let ex = [if n - 1 < 0 then CHR ''-'' else CHR ''+''] @ showNat \<bar>n - 1\<bar>
            in if k = 1 then ds @ ''e'' @ ex
               else take 1 ds @ ''.'' @ drop 1 ds @ ''e'' @ ex)))"

fun Number_toString :: "number \<Rightarrow> string" where
  "Number_toString NaN = ''NaN''"
| "Number_toString (Infinity neg) = (if neg then ''-Infinity'' else ''Infinity'')"
| "Number_toString (Num x) =
     (if x = 0 then ''0'' else if x < 0 then ''-'' @ positiveToString (- x)
      else positiveToString x)"

text \<open>
  \<open>x.toFixed(f)\<close> throws a \<open>RangeError\<close> unless \<open>0 \<le> f \<le> 100\<close>. It prints a value
  that is not finite, or is at least \<open>10 ^ 21\<close> in size, as \<open>Number::toString\<close> does;
  otherwise it prints the integer nearest to \<open>x * 10 ^ f\<close> (the larger of two) with the
  decimal point \<open>f\<close> digits from the right.
\<close>

definition toFixed :: "number \<Rightarrow> int \<Rightarrow> exn + string" where
  "toFixed v f = (if f < 0 \<or> 100 < f then Inl RangeError else
     (case v of
        Num x \<Rightarrow>
          if 10 ^ 21 \<le> \<bar>x\<bar> then Inr (Number_toString v)
          else (let n = \<lfloor>\<bar>x\<bar> * 10 ^ nat f + 1 / 2\<rfloor>;
                    ds = showNat n;
                    m = replicate (nat f + 1 - length ds) CHR ''0'' @ ds;
                    k = length m
                in Inr ((if x < 0 then ''-'' else '''')
                        @ (if f = 0 then m else take (k - nat f) m @ ''.'' @ drop (k - nat f) m)))
      | _ \<Rightarrow> Inr (Number_toString v)))"

section \<open>\<open>parseCoordinates\<close>\<close>

text \<open>\<open>split_on d s\<close> is \<open>s.split(d)\<close> for a one-character separator.\<close>

fun split_on :: "char \<Rightarrow> string \<Rightarrow> string list" where
  "split_on d [] = [[]]"
| "split_on d (c # cs) =
     (if c = d then [] # split_on d cs
      else (case split_on d cs of [] \<Rightarrow> [[c]] | w # ws \<Rightarrow> (c # w) # ws))"

text \<open>\<open>value.toString().replace(/[^\d.\-,]/g, '').trim()\<close>\<close>

definition keepChar :: "char \<Rightarrow> bool" where
  "keepChar c = (isDigit c \<or> c = CHR ''.'' \<or> c = CHR ''-'' \<or> c = CHR '','')"

definition cleanVal :: "string \<Rightarrow> string" where
  "cleanVal s = trim (filter keepChar s)"

text \<open>\<open>s.split(d).map(v => parseFloat(v)).filter(n => !isNaN(n))\<close>\<close>

definition parsedParts :: "char \<Rightarrow> string \<Rightarrow> number list" where
  "parsedParts d s = filter (\<lambda>n. \<not> isNaN n) (map parseFloat (split_on d s))"

text \<open>\<open>parseFloat(x.toFixed(6))\<close>, which throws when \<open>toFixed\<close> does.\<close>

definition round6 :: "number \<Rightarrow> exn + number" where
  "round6 x = (case toFixed x 6 of Inl e \<Rightarrow> Inl e | Inr t \<Rightarrow> Inr (parseFloat t))"

text \<open>
  The body of the \<open>try\<close> block, on the cleaned text. The range branch returns only
  when exactly two of the hyphen-separated parts parse; in every other case control
  reaches the fallback.
\<close>

definition rangeBranch :: "string \<Rightarrow> bool" where
  "rangeBranch c = (CHR ''-'' \<in> set c \<and> take 1 c \<noteq> ''-'')"

definition fallback :: "string \<Rightarrow> number option" where
  "fallback c = (let num = parseFloat c in if isNaN num then None else Some num)"

definition tryBody :: "string \<Rightarrow> exn + number option" where
  "tryBody c =
     (if CHR '','' \<in> set c then
        (let parts = parsedParts CHR '','' c in
         if length parts = 0 then Inr None
         else (let sum = foldl num_add (Num 0) parts in
               case round6 (num_div sum (length parts)) of
                 Inl e \<Rightarrow> Inl e
               | Inr r \<Rightarrow> Inr (Some r)))
      else if rangeBranch c \<and> length (parsedParts CHR ''-'' c) = 2 then
        (let parts = parsedParts CHR ''-'' c in
         case round6 (num_div (num_add (parts ! 0) (parts ! 1)) 2) of
           Inl e \<Rightarrow> Inl e
         | Inr r \<Rightarrow> Inr (Some r))
      else Inr (fallback c))"

text \<open>
  The whole function: the two guards, the cleaning, and the \<open>try\<close> block whose
  \<open>catch\<close> turns any exception into \<open>undefined\<close> (\<open>None\<close>).
\<close>

definition parseCoordinates :: "jsval \<Rightarrow> exn + number option" where
  "parseCoordinates v = (case v of
       Undefined \<Rightarrow> Inr None
     | Null \<Rightarrow> Inr None
     | Number n \<Rightarrow> Inr (Some n)
     | Str s \<Rightarrow>
         if s = [] then Inr None
         else (case tryBody (cleanVal s) of Inl e \<Rightarrow> Inr None | Inr r \<Rightarrow> Inr r))"

section \<open>\<open>exportToCSV\<close>\<close>

text \<open>
  A \<open>ProcessedPaper\<close> is an object read by property name (\<open>row[fieldName]\<close>): a map from
  names to values, where a name without a property reads as \<open>undefined\<close>.
\<close>

type_synonym ProcessedPaper = "string \<rightharpoonup> jsval"

definition headers :: "string list" where
  "headers =
    [''Year'', ''Authors'', ''Title'', ''Journal'', ''Open_Access'',
     ''Scale'', ''Continent'', ''Country'', ''Longitude'', ''Latitude'',
     ''Sampling_Year'', ''Sampling_Design'', ''Sampling_Depth'', ''Soil_Status'', ''LULC'',
     ''Spectrometer'', ''Spectral_Region'', ''Spectral_Range_Val'', ''Spectral_Library'',
     ''Spectral_Preprocessing'', ''Transfer_Learning'',
     ''Target_Property'', ''No_Samples_Cal'', ''No_Samples_Val'', ''Split_Method'',
     ''Variable_Selection'', ''Calibration_Model'', ''Auxiliary_Predictors'',
     ''Validation_Type'', ''R2'', ''RMSE'', ''RPIQ'', ''r'']"

definition getProp :: "ProcessedPaper \<Rightarrow> string \<Rightarrow> jsval" where
  "getProp row fieldName = (case row fieldName of None \<Rightarrow> Undefined | Some v \<Rightarrow> v)"

text \<open>\<open>String(val)\<close>\<close>

fun String_of :: "jsval \<Rightarrow> string" where
  "String_of Undefined = ''undefined''"
| "String_of Null = ''null''"
| "String_of (Str s) = s"
| "String_of (Number n) = Number_toString n"

text \<open>\<open>xs.join(sep)\<close> on an array of strings\<close>

fun join :: "string \<Rightarrow> string list \<Rightarrow> string" where
  "join sep [] = []"
| "join sep [x] = x"
| "join sep (x # y # ys) = x @ sep @ join sep (y # ys)"

text \<open>\<open>s.replace(/"/g, '""')\<close>\<close>

fun replaceQuotes :: "string \<Rightarrow> string" where
  "replaceQuotes [] = []"
| "replaceQuotes (c # cs) =
     (if c = CHR 0x22 then CHR 0x22 # CHR 0x22 # replaceQuotes cs else c # replaceQuotes cs)"

text \<open>The cell of one field: the function mapped over \<open>headers\<close> for each row.\<close>

definition cell :: "ProcessedPaper \<Rightarrow> string \<Rightarrow> string" where
  "cell row fieldName = (let val = getProp row fieldName in
     if val = Undefined \<or> val = Null then []
     else (let stringVal = String_of val in
           if CHR '','' \<in> set stringVal \<or> CHR 0x22 \<in> set stringVal
           then [CHR 0x22] @ replaceQuotes stringVal @ [CHR 0x22]
           else stringVal))"

definition csvContent :: "ProcessedPaper list \<Rightarrow> string" where
  "csvContent data =
     join [CHR 0x0A]
       (join '','' headers # map (\<lambda>row. join '','' (map (cell row) headers)) data)"

subsection \<open>The download\<close>

text \<open>
  What the function does to the page: it registers a blob under a fresh object URL (the
  next index of the registry), creates a link with that URL, the file name and hidden
  visibility, appends it to the body, clicks it and removes it again. Clicking a link that
  has a \<open>download\<close> attribute and points to a registered blob saves the blob under that
  name.
\<close>

record blob =
  blob_parts :: string
  blob_type :: string

record anchor =
  attr_href :: "nat option"
  attr_download :: "string option"
  style_visibility :: string

record browser =
  object_urls :: "blob list"
  body_children :: "anchor list"
  downloads :: "(string \<times> blob) list"

definition createObjectURL :: "blob \<Rightarrow> browser \<Rightarrow> nat \<times> browser" where
  "createObjectURL b w = (length (object_urls w), w\<lparr>object_urls := object_urls w @ [b]\<rparr>)"

definition createAnchor :: anchor where
  "createAnchor = \<lparr>attr_href = None, attr_download = None, style_visibility = []\<rparr>"

definition appendChild :: "anchor \<Rightarrow> browser \<Rightarrow> browser" where
  "appendChild a w = w\<lparr>body_children := body_children w @ [a]\<rparr>"

definition removeLastChild :: "browser \<Rightarrow> browser" where
  "removeLastChild w = w\<lparr>body_children := butlast (body_children w)\<rparr>"

definition click :: "anchor \<Rightarrow> browser \<Rightarrow> browser" where
  "click a w = (case (attr_href a, attr_download a) of
       (Some u, Some name) \<Rightarrow>
         if u < length (object_urls w)
         then w\<lparr>downloads := downloads w @ [(name, object_urls w ! u)]\<rparr>
         else w
     | _ \<Rightarrow> w)"

text \<open>
  \<open>data\<close> is \<open>None\<close> when the argument is \<open>undefined\<close> or \<open>null\<close> (the \<open>!data\<close> of the
  guard).
\<close>

definition exportToCSV :: "ProcessedPaper list option \<Rightarrow> string \<Rightarrow> browser \<Rightarrow> browser" where
  "exportToCSV data filename w = (case data of
       None \<Rightarrow> w
     | Some rows \<Rightarrow>
         if length rows = 0 then w
         else (let b = \<lparr>blob_parts = csvContent rows, blob_type = ''text/csv;charset=utf-8;''\<rparr>;
                   (url, w1) = createObjectURL b w;
                   link = createAnchor\<lparr>attr_href := Some url\<rparr>;
                   link = link\<lparr>attr_download := Some filename\<rparr>;
                   link = link\<lparr>style_visibility := ''hidden''\<rparr>;
                   w2 = appendChild link w1;
                   w3 = click link w2
               in removeLastChild w3))"

section \<open>Notions of the specification\<close>

text \<open>
  The arithmetic mean of a list of numbers, as the source computes it: the sum, taken
  from the left starting at zero, divided by the count.
\<close>

definition mean :: "number list \<Rightarrow> number" where
  "mean xs = num_div (foldl num_add (Num 0) xs) (length xs)"

text \<open>
  Rounding to six decimal places: the multiple of \<open>10 ^ -6\<close> nearest to the value
  (a tie goes away from zero), as a binary64 value. A value of size \<open>10 ^ 21\<close> or more
  is printed by \<open>Number::toString\<close> and read back; a value that is not finite is kept.
\<close>

definition roundTo6 :: "number \<Rightarrow> number" where
  "roundTo6 v = (case v of
       Num x \<Rightarrow>
         if \<bar>x\<bar> < 10 ^ 21 then to_double (sgn x * of_int \<lfloor>\<bar>x\<bar> * 10 ^ 6 + 1 / 2\<rfloor> / 10 ^ 6)
         else parseFloat (Number_toString v)
     | _ \<Rightarrow> v)"

text \<open>The first line of a text: everything before the first line feed.\<close>

definition firstLine :: "string \<Rightarrow> string" where
  "firstLine t = takeWhile (\<lambda>c. c \<noteq> CHR 0x0A) t"

text \<open>
  The string representation of a field, \<open>None\<close> for an absent one (no property, or
  the value \<open>undefined\<close> or \<open>null\<close>), and the cell the specification asks for.
\<close>

definition fieldRepr :: "ProcessedPaper \<Rightarrow> string \<Rightarrow> string option" where
  "fieldRepr row h = (case row h of
       None \<Rightarrow> None
     | Some Undefined \<Rightarrow> None
     | Some Null \<Rightarrow> None
     | Some v \<Rightarrow> Some (String_of v))"

definition quotedCell :: "string option \<Rightarrow> string" where
  "quotedCell r = (case r of
       None \<Rightarrow> []
     | Some t \<Rightarrow>
         if CHR '','' \<in> set t \<or> CHR 0x22 \<in> set t
         then CHR 0x22 # concat (map (\<lambda>c. if c = CHR 0x22 then [CHR 0x22, CHR 0x22] else [c]) t)
              @ [CHR 0x22]
         else t)"

text \<open>
  A reader of CSV text after RFC 4180: fields are separated by commas and records by line
  breaks; a field that starts with a double quote runs to the closing double quote, may
  hold commas and line breaks, and holds a double quote where two of them are written.
  The reader takes a bare line feed as a line break as well as CR LF, since the exporter
  joins its lines with line feeds. Its arguments are the state, the field and the record
  read so far, and the rest of the text.
\<close>

datatype rstate = FieldStart | Unquoted | Quoted | QuoteSeen

fun csvRead :: "rstate \<Rightarrow> string \<Rightarrow> string list \<Rightarrow> string \<Rightarrow> string list list" where
  "csvRead st f r [] = (if st = FieldStart \<and> r = [] then [] else [r @ [f]])"
| "csvRead st f r (c # cs) =
    (if st = Quoted then
       (if c = CHR 0x22 then csvRead QuoteSeen f r cs else csvRead Quoted (f @ [c]) r cs)
     else if c = CHR 0x22 \<and> st = FieldStart then csvRead Quoted f r cs
     else if c = CHR 0x22 \<and> st = QuoteSeen then csvRead Quoted (f @ [c]) r cs
     else if c = CHR '','' then csvRead FieldStart [] (r @ [f]) cs
     else if c = CHR 0x0A then (r @ [f]) # csvRead FieldStart [] [] cs
     else if c = CHR 0x0D \<and> take 1 cs = [CHR 0x0A] then csvRead st f r cs
     else csvRead Unquoted (f @ [c]) r cs)"

definition parseCsv :: "string \<Rightarrow> string list list" where
  "parseCsv t = csvRead FieldStart [] [] t"

text \<open>
  What a round trip has to recover: the header names, then for each record the string
  representation of each header field, the empty string for an absent one.
\<close>

definition fieldText :: "ProcessedPaper \<Rightarrow> string \<Rightarrow> string" where
  "fieldText row h = (case fieldRepr row h of None \<Rightarrow> [] | Some t \<Rightarrow> t)"

definition expectedRows :: "ProcessedPaper list \<Rightarrow> string list list" where
  "expectedRows data = headers # map (\<lambda>row. map (fieldText row) headers) data"

text \<open>
  A field text whose line breaks end up between quotes: it has no line feed and no
  carriage return, or it has a comma or a double quote.
\<close>

definition lineBreaksQuoted :: "string \<Rightarrow> bool" where
  "lineBreaksQuoted t =
     (CHR 0x0A \<in> set t \<or> CHR 0x0D \<in> set t \<longrightarrow> CHR '','' \<in> set t \<or> CHR 0x22 \<in> set t)"

text \<open>A line of cells as the specification describes them.\<close>

definition csvLine :: "string list \<Rightarrow> string" where
  "csvLine vs = join '','' (map (\<lambda>t. quotedCell (Some t)) vs)"

text \<open>A numeral of 310 digits, \<open>10 ^ 309\<close>, which is too large for binary64.\<close>

definition hugeDigits :: string where
  "hugeDigits = CHR ''1'' # replicate 309 CHR ''0''"

section \<open>Auxiliary facts\<close>

subsection \<open>Digits and printing\<close>

lemma not_isDigit_punct [simp]:
  "\<not> isDigit CHR ''-''" "\<not> isDigit CHR ''.''" "\<not> isDigit CHR '',''" "\<not> isDigit CHR ''+''"
  "\<not> isDigit CHR ''e''" "\<not> isDigit CHR ''E''" "\<not> isDigit CHR ''I''"
  by (simp_all add: isDigit_def)

lemma isDigit_not_space: "isDigit c \<Longrightarrow> \<not> isWhiteSpace c"
  by (auto simp: isDigit_def isWhiteSpace_def)

lemma not_space_punct [simp]:
  "\<not> isWhiteSpace CHR ''-''" "\<not> isWhiteSpace CHR ''.''" "\<not> isWhiteSpace CHR '',''"
  by (simp_all add: isWhiteSpace_def)

lemma isDigit_char_of: "0 \<le> n \<Longrightarrow> n < 10 \<Longrightarrow> isDigit (char_of (48 + n :: int))"
  by (simp add: isDigit_def)

lemma digitVal_char_of: "0 \<le> n \<Longrightarrow> n < 10 \<Longrightarrow> digitVal (char_of (48 + n :: int)) = n"
  by (simp add: digitVal_def)

lemma digitsVal_snoc: "digitsVal (ds @ [c]) = 10 * digitsVal ds + digitVal c"
  by (simp add: digitsVal_def)

lemma digitsVal_Nil [simp]: "digitsVal [] = 0"
  by (simp add: digitsVal_def)

lemma showNat_digits: "0 \<le> n \<Longrightarrow> c \<in> set (showNat n) \<Longrightarrow> isDigit c"
proof (induction n arbitrary: c rule: showNat.induct)
  case (1 n)
  show ?case
  proof (cases "n < 10")
    case True
    with "1.prems" show ?thesis
      by (simp add: showNat.simps [of n] isDigit_char_of)
  next
    case False
    then have "0 \<le> n div 10" "0 \<le> n mod 10" "n mod 10 < 10" by simp_all
    with False "1.prems" "1.IH" show ?thesis
      by (auto simp: showNat.simps [of n] isDigit_char_of)
  qed
qed

lemma showNat_nonempty: "showNat n \<noteq> []"
  by (simp add: showNat.simps [of n])

lemma digitsVal_showNat: "0 \<le> n \<Longrightarrow> digitsVal (showNat n) = n"
proof (induction n rule: showNat.induct)
  case (1 n)
  show ?case
  proof (cases "n < 10")
    case True
    with "1.prems" show ?thesis
      by (simp add: showNat.simps [of n] digitsVal_def digitVal_char_of)
  next
    case False
    then have "0 \<le> n div 10" "0 \<le> n mod 10" "n mod 10 < 10" by simp_all
    with False "1.IH" show ?thesis
      by (simp add: showNat.simps [of n] digitsVal_snoc digitVal_char_of)
  qed
qed

lemma digitsVal_append: "digitsVal (a @ b) = digitsVal a * 10 ^ length b + digitsVal b"
proof (induction b rule: rev_induct)
  case Nil
  show ?case by simp
next
  case (snoc c b)
  have "digitsVal (a @ b @ [c]) = 10 * digitsVal (a @ b) + digitVal c"
    using digitsVal_snoc [of "a @ b" c] by simp
  with snoc show ?case
    by (simp add: digitsVal_snoc algebra_simps)
qed

lemma digitsVal_zeros: "digitsVal (replicate z CHR ''0'' @ ds) = digitsVal ds"
proof -
  have "digitsVal (replicate z CHR ''0'') = 0"
  proof (induction z)
    case 0
    show ?case by simp
  next
    case (Suc z)
    have "replicate (Suc z) CHR ''0'' = replicate z CHR ''0'' @ [CHR ''0'']"
      by (simp add: replicate_append_same)
    then have "digitsVal (replicate (Suc z) CHR ''0'')
             = 10 * digitsVal (replicate z CHR ''0'') + digitVal CHR ''0''"
      by (simp only: digitsVal_snoc)
    with Suc show ?case by (simp add: digitVal_def)
  qed
  then show ?thesis by (simp add: digitsVal_append)
qed

lemma scanUnsigned_point:
  assumes "\<forall>c \<in> set ip. isDigit c" and "\<forall>c \<in> set fp. isDigit c" and "ip \<noteq> []"
  shows "scanUnsigned (ip @ CHR ''.'' # fp)
         = Some (of_int (digitsVal ip) + of_int (digitsVal fp) / 10 ^ length fp)"
proof -
  have t: "takeWhile isDigit (ip @ CHR ''.'' # fp) = ip"
    using assms(1) by (simp add: takeWhile_append2)
  have d: "dropWhile isDigit (ip @ CHR ''.'' # fp) = CHR ''.'' # fp"
    using assms(1) by (simp add: dropWhile_append2)
  have f: "scanFraction (CHR ''.'' # fp) = (fp, [])"
    using assms(2) by (simp add: scanFraction_def)
  show ?thesis
    using assms(3) by (simp add: scanUnsigned_def t d f scanExponent_def pow10_def)
qed

lemma parseFloat_point:
  assumes "\<forall>c \<in> set ip. isDigit c" and "\<forall>c \<in> set fp. isDigit c" and "ip \<noteq> []"
  shows "parseFloat (ip @ CHR ''.'' # fp)
         = to_double (of_int (digitsVal ip) + of_int (digitsVal fp) / 10 ^ length fp)"
    and "parseFloat (CHR ''-'' # ip @ CHR ''.'' # fp)
         = to_double (- (of_int (digitsVal ip) + of_int (digitsVal fp) / 10 ^ length fp))"
proof -
  obtain c r where ip: "ip = c # r" using assms(3) by (cases ip) auto
  then have c: "isDigit c" using assms(1) by simp
  then have ne: "c \<noteq> CHR ''-''" "c \<noteq> CHR ''+''" "c \<noteq> CHR ''I''" "\<not> isWhiteSpace c"
    by (auto simp: isDigit_not_space)
  have s1: "scanSign (ip @ CHR ''.'' # fp) = (False, ip @ CHR ''.'' # fp)"
    using ne by (simp add: scanSign_def ip)
  have dw: "dropWhile isWhiteSpace (ip @ CHR ''.'' # fp) = ip @ CHR ''.'' # fp"
    using ne by (simp add: ip)
  have inf: "take 8 (ip @ CHR ''.'' # fp) \<noteq> ''Infinity''"
    using ne by (simp add: ip)
  show "parseFloat (ip @ CHR ''.'' # fp)
         = to_double (of_int (digitsVal ip) + of_int (digitsVal fp) / 10 ^ length fp)"
    using inf by (simp add: parseFloat_def dw s1 scanUnsigned_point [OF assms])
  have s2: "scanSign (CHR ''-'' # ip @ CHR ''.'' # fp) = (True, ip @ CHR ''.'' # fp)"
    by (simp add: scanSign_def)
  show "parseFloat (CHR ''-'' # ip @ CHR ''.'' # fp)
         = to_double (- (of_int (digitsVal ip) + of_int (digitsVal fp) / 10 ^ length fp))"
    using inf by (simp add: parseFloat_def s2 scanUnsigned_point [OF assms])
qed

lemma parseFloat_NaN_Infinity:
  "parseFloat ''NaN'' = NaN"
  "parseFloat ''Infinity'' = Infinity False"
  "parseFloat ''-Infinity'' = Infinity True"
  by (simp_all add: parseFloat_def scanSign_def scanUnsigned_def scanFraction_def
      isWhiteSpace_def isDigit_def)

lemma round6_Num:
  assumes small: "\<bar>x\<bar> < 10 ^ 21"
  shows "round6 (Num x) = Inr (to_double (sgn x * of_int \<lfloor>\<bar>x\<bar> * 10 ^ 6 + 1 / 2\<rfloor> / 10 ^ 6))"
proof -
  define n where "n = \<lfloor>\<bar>x\<bar> * 10 ^ 6 + 1 / 2\<rfloor>"
  define m where "m = replicate (7 - length (showNat n)) CHR ''0'' @ showNat n"
  define ip where "ip = take (length m - 6) m"
  define fp where "fp = drop (length m - 6) m"
  have n0: "0 \<le> n" by (simp add: n_def)
  have len: "7 \<le> length m" by (simp add: m_def)
  have dig: "\<forall>c \<in> set m. isDigit c"
    using showNat_digits [OF n0] by (auto simp: m_def isDigit_def)
  have dip: "\<forall>c \<in> set ip. isDigit c"
    using dig by (auto simp: ip_def dest: in_set_takeD)
  have dfp: "\<forall>c \<in> set fp. isDigit c"
    using dig by (auto simp: fp_def dest: in_set_dropD)
  have ipne: "ip \<noteq> []" using len by (auto simp: ip_def)
  have lfp: "length fp = 6" using len by (simp add: fp_def)
  have "digitsVal m = n"
    by (simp add: m_def digitsVal_zeros digitsVal_showNat [OF n0])
  moreover have "m = ip @ fp" by (simp add: ip_def fp_def)
  ultimately have "digitsVal ip * 10 ^ 6 + digitsVal fp = n"
    using digitsVal_append [of ip fp] lfp by simp
  then have "rat_of_int (digitsVal ip) * 10 ^ 6 + rat_of_int (digitsVal fp) = rat_of_int n"
    by (metis of_int_add of_int_mult of_int_numeral of_int_power)
  then have mv: "rat_of_int (digitsVal ip) + rat_of_int (digitsVal fp) / 10 ^ length fp
               = rat_of_int n / 10 ^ 6"
    by (simp add: lfp field_simps)
  have tf: "toFixed (Num x) 6 = Inr ((if x < 0 then ''-'' else []) @ ip @ CHR ''.'' # fp)"
    using small by (simp add: toFixed_def Let_def n_def m_def ip_def fp_def)
  have r: "round6 (Num x) = Inr (to_double (if x < 0 then - (rat_of_int n / 10 ^ 6)
                                            else rat_of_int n / 10 ^ 6))"
  proof (cases "x < 0")
    case True
    have "round6 (Num x) = Inr (parseFloat (CHR ''-'' # ip @ CHR ''.'' # fp))"
      using True by (simp add: round6_def tf)
    with True show ?thesis
      by (simp only: parseFloat_point(2) [OF dip dfp ipne] mv if_True)
  next
    case False
    have "round6 (Num x) = Inr (parseFloat (ip @ CHR ''.'' # fp))"
      using False by (simp add: round6_def tf)
    with False show ?thesis
      by (simp only: parseFloat_point(1) [OF dip dfp ipne] mv if_False)
  qed
  have "(if x < 0 then - (rat_of_int n / 10 ^ 6) else rat_of_int n / 10 ^ 6)
      = sgn x * rat_of_int n / 10 ^ 6"
  proof (cases "x = 0")
    case True
    have "\<lfloor>(1 :: rat) / 2\<rfloor> = 0" by (rule floor_unique) simp_all
    with True have "n = 0" by (simp add: n_def)
    with True show ?thesis by simp
  next
    case False
    then show ?thesis by (simp add: sgn_if)
  qed
  with r show ?thesis by (simp only: n_def)
qed

lemma round6_roundTo6: "round6 v = Inr (roundTo6 v)"
proof (cases v)
  case NaN
  then show ?thesis
    by (simp add: round6_def toFixed_def roundTo6_def parseFloat_NaN_Infinity)
next
  case (Infinity neg)
  then show ?thesis
    by (simp add: round6_def toFixed_def roundTo6_def parseFloat_NaN_Infinity)
next
  case (Num x)
  show ?thesis
  proof (cases "\<bar>x\<bar> < 10 ^ 21")
    case True
    then show ?thesis
      by (simp add: Num round6_Num roundTo6_def)
  next
    case False
    then show ?thesis
      by (simp add: Num round6_def toFixed_def roundTo6_def)
  qed
qed

subsection \<open>The cleaned text\<close>

lemma set_trim: "set (trim s) \<subseteq> set s"
proof -
  have "set (trim s) \<subseteq> set (rev (dropWhile isWhiteSpace s))"
    unfolding trim_def set_rev by (auto dest: set_dropWhileD)
  also have "\<dots> \<subseteq> set s"
    by (auto dest: set_dropWhileD)
  finally show ?thesis .
qed

lemma cleanVal_chars: "ch \<in> set (cleanVal s) \<Longrightarrow> keepChar ch \<and> ch \<in> set s"
  using set_trim [of "filter keepChar s"] by (auto simp: cleanVal_def)

lemma cleanVal_nonempty: "ch \<in> set (cleanVal s) \<Longrightarrow> s \<noteq> []"
  using cleanVal_chars by fastforce

lemma parseCoordinates_Str:
  "s \<noteq> [] \<Longrightarrow> tryBody (cleanVal s) = Inr r \<Longrightarrow> parseCoordinates (Str s) = Inr r"
  by (simp add: parseCoordinates_def)

lemma split_on_nonempty: "split_on d s \<noteq> []"
  by (induction s) (auto split: list.splits)

lemma split_on_chars: "w \<in> set (split_on d s) \<Longrightarrow> ch \<in> set w \<Longrightarrow> ch \<in> set s"
proof (induction s arbitrary: w)
  case Nil
  then show ?case by simp
next
  case (Cons c cs)
  show ?case
  proof (cases "c = d")
    case True
    with Cons show ?thesis by auto
  next
    case False
    obtain v vs where sp: "split_on d cs = v # vs"
      using split_on_nonempty [of d cs] by (cases "split_on d cs") auto
    with False Cons.prems(1) have "w = c # v \<or> w \<in> set vs" by auto
    then show ?thesis
    proof
      assume "w = c # v"
      with Cons.prems(2) have "ch = c \<or> ch \<in> set v" by auto
      then show ?thesis using Cons.IH [of v] sp by auto
    next
      assume "w \<in> set vs"
      then show ?thesis using Cons.IH [of w] sp Cons.prems(2) by auto
    qed
  qed
qed

lemma hd_split_on: "hd (split_on d s) = takeWhile (\<lambda>ch. ch \<noteq> d) s"
proof (induction s)
  case Nil
  show ?case by simp
next
  case (Cons c cs)
  obtain v vs where sp: "split_on d cs = v # vs"
    using split_on_nonempty [of d cs] by (cases "split_on d cs") auto
  with Cons show ?case by auto
qed

subsection \<open>The branches of the \<open>try\<close> block\<close>

lemma tryBody_comma:
  assumes "CHR '','' \<in> set c"
  shows "tryBody c = Inr (let parts = parsedParts CHR '','' c
                          in if parts = [] then None else Some (roundTo6 (mean parts)))"
  using assms by (simp add: tryBody_def round6_roundTo6 mean_def Let_def)


lemma tryBody_fallback:
  assumes "CHR '','' \<notin> set c"
    and "take 1 c = ''-'' \<or> CHR ''-'' \<notin> set c \<or> length (parsedParts CHR ''-'' c) \<noteq> 2"
  shows "tryBody c = Inr (if isNaN (parseFloat c) then None else Some (parseFloat c))"
  using assms by (auto simp: tryBody_def rangeBranch_def fallback_def Let_def)

lemma tryBody_returns: "\<exists>r. tryBody c = Inr r"
  by (simp add: tryBody_def round6_roundTo6 Let_def)

subsection \<open>What \<open>parseFloat\<close> reads\<close>

lemma scanFraction_digits: "scanFraction r = (fp, q) \<Longrightarrow> ch \<in> set fp \<Longrightarrow> isDigit ch \<and> ch \<in> set r"
  by (auto simp: scanFraction_def split: list.splits if_splits dest: set_takeWhileD)

lemma scanUnsigned_no_digit:
  assumes "\<forall>ch \<in> set u. \<not> isDigit ch"
  shows "scanUnsigned u = None"
proof -
  have t: "takeWhile isDigit u = []"
    using assms by (cases u) auto
  obtain fp q where f: "scanFraction (dropWhile isDigit u) = (fp, q)"
    by (cases "scanFraction (dropWhile isDigit u)")
  have "fp = []"
  proof (rule ccontr)
    assume "fp \<noteq> []"
    then obtain ch where "ch \<in> set fp" by (cases fp) auto
    with scanFraction_digits [OF f] have "isDigit ch" "ch \<in> set (dropWhile isDigit u)" by auto
    with assms show False by (auto dest: set_dropWhileD)
  qed
  with t f show ?thesis by (simp add: scanUnsigned_def)
qed

lemma scanSign_chars: "scanSign t = (neg, u) \<Longrightarrow> ch \<in> set u \<Longrightarrow> ch \<in> set t"
  by (auto simp: scanSign_def split: list.splits if_splits)

lemma parseFloat_no_digit:
  assumes "\<forall>ch \<in> set t. \<not> isDigit ch \<and> ch \<noteq> CHR ''I''"
  shows "parseFloat t = NaN"
proof -
  obtain neg u where sg: "scanSign (dropWhile isWhiteSpace t) = (neg, u)"
    by (cases "scanSign (dropWhile isWhiteSpace t)")
  have sub: "ch \<in> set t" if "ch \<in> set u" for ch
    using scanSign_chars [OF sg that] by (auto dest: set_dropWhileD)
  have "take 8 u \<noteq> ''Infinity''"
  proof
    assume "take 8 u = ''Infinity''"
    then have "CHR ''I'' \<in> set u" by (cases u) auto
    with sub assms show False by blast
  qed
  moreover have "scanUnsigned u = None"
    using sub assms by (intro scanUnsigned_no_digit) blast
  ultimately show ?thesis
    by (simp add: parseFloat_def sg)
qed

lemma pow2_pos: "0 < pow2 e"
  by (simp add: pow2_def)

lemma pow10_pos: "0 < pow10 e"
  by (simp add: pow10_def)

lemma round_half_even_nonneg: "0 \<le> x \<Longrightarrow> 0 \<le> round_half_even x"
  by (auto simp: round_half_even_def Let_def)

lemma to_double_nonpos:
  assumes "y \<le> 0"
  shows "to_double y \<noteq> Infinity False" and "to_double y = Num x \<Longrightarrow> x \<le> 0"
proof -
  define e where "e = max (ilog2 \<bar>y\<bar>) (- 1022)"
  define m where "m = round_half_even (\<bar>y\<bar> / pow2 (e - 52))"
  have m0: "0 \<le> m"
    unfolding m_def using pow2_pos [of "e - 52"] by (intro round_half_even_nonneg) simp
  have eq: "to_double y = (if y = 0 then Num 0
      else if 1023 < e \<or> (e = 1023 \<and> 2 ^ 53 \<le> m) then Infinity (y < 0)
      else Num (sgn y * of_int m * pow2 (e - 52)))"
    by (simp only: to_double_def Let_def e_def m_def)
  show "to_double y \<noteq> Infinity False"
    using assms by (auto simp: eq)
  have "sgn y * of_int m * pow2 (e - 52) \<le> 0" if "y < 0"
  proof -
    have "0 \<le> of_int m * pow2 (e - 52)"
      using m0 pow2_pos [of "e - 52"] by simp
    with that show ?thesis by (simp add: mult.assoc)
  qed
  then show "to_double y = Num x \<Longrightarrow> x \<le> 0"
    using assms by (auto simp: eq split: if_splits)
qed

lemma digitsVal_nonneg: "\<forall>c \<in> set ds. isDigit c \<Longrightarrow> 0 \<le> digitsVal ds"
proof (induction ds rule: rev_induct)
  case Nil
  show ?case by simp
next
  case (snoc c ds)
  then have "0 \<le> digitVal c" by (simp add: isDigit_def digitVal_def)
  with snoc show ?case by (simp add: digitsVal_snoc)
qed

lemma scanUnsigned_nonneg:
  assumes "scanUnsigned u = Some mv"
  shows "0 \<le> mv"
proof -
  obtain fp q where f: "scanFraction (dropWhile isDigit u) = (fp, q)"
    by (cases "scanFraction (dropWhile isDigit u)")
  have "0 \<le> digitsVal (takeWhile isDigit u)"
    by (rule digitsVal_nonneg) (auto dest: set_takeWhileD)
  moreover have "0 \<le> digitsVal fp"
    using scanFraction_digits [OF f] by (intro digitsVal_nonneg) blast
  ultimately have "0 \<le> rat_of_int (digitsVal (takeWhile isDigit u))
                      + rat_of_int (digitsVal fp) / 10 ^ length fp"
    by simp
  then have "0 \<le> (rat_of_int (digitsVal (takeWhile isDigit u))
                      + rat_of_int (digitsVal fp) / 10 ^ length fp) * pow10 (scanExponent q)"
    using pow10_pos [of "scanExponent q"] by simp
  with assms f show ?thesis
    by (auto simp: scanUnsigned_def Let_def split: if_splits)
qed

lemma parseFloat_leading_minus:
  shows "parseFloat (CHR ''-'' # u) \<noteq> Infinity False"
    and "parseFloat (CHR ''-'' # u) = Num x \<Longrightarrow> x \<le> 0"
proof -
  have eq: "parseFloat (CHR ''-'' # u) =
      (if take 8 u = ''Infinity'' then Infinity True
       else case scanUnsigned u of None \<Rightarrow> NaN | Some mv \<Rightarrow> to_double (- mv))"
    by (simp add: parseFloat_def scanSign_def split: option.splits)
  have neg: "to_double (- mv) \<noteq> Infinity False \<and> (to_double (- mv) = Num x \<longrightarrow> x \<le> 0)"
    if "scanUnsigned u = Some mv" for mv
  proof -
    have "- mv \<le> 0" using scanUnsigned_nonneg [OF that] by simp
    then show ?thesis using to_double_nonpos(1) [of "- mv"] to_double_nonpos(2) [of "- mv" x] by blast
  qed
  show "parseFloat (CHR ''-'' # u) \<noteq> Infinity False"
    using neg by (auto simp: eq split: option.splits)
  show "parseFloat (CHR ''-'' # u) = Num x \<Longrightarrow> x \<le> 0"
    using neg by (auto simp: eq split: option.splits if_splits)
qed

lemma takeWhile_stop: "\<not> P y \<Longrightarrow> takeWhile P (xs @ y # ys) = takeWhile P xs"
  by (induction xs) simp_all

lemma dropWhile_stop: "\<not> P y \<Longrightarrow> dropWhile P (xs @ y # ys) = dropWhile P xs @ y # ys"
  by (induction xs) simp_all

lemma scanExponent_none: "r = [] \<or> (hd r \<noteq> CHR ''e'' \<and> hd r \<noteq> CHR ''E'') \<Longrightarrow> scanExponent r = 0"
  by (cases r) (auto simp: scanExponent_def)

lemma dropWhile_isDigit_head:
  assumes "\<forall>ch \<in> set p. isDigit ch \<or> ch = CHR ''.''"
  shows "dropWhile isDigit p = [] \<or> (\<exists>q. dropWhile isDigit p = CHR ''.'' # q \<and> set q \<subseteq> set p)"
proof (cases "dropWhile isDigit p")
  case Nil
  then show ?thesis by simp
next
  case (Cons c q)
  then have "\<not> isDigit c" using hd_dropWhile [of isDigit p] by auto
  moreover have "set (c # q) \<subseteq> set p"
    using Cons set_dropWhileD [of _ isDigit p] by auto
  ultimately show ?thesis using assms Cons by auto
qed

lemma scanUnsigned_before_hyphen:
  assumes "\<forall>ch \<in> set p. isDigit ch \<or> ch = CHR ''.''"
  shows "scanUnsigned (p @ CHR ''-'' # rest) = scanUnsigned p"
proof -
  have t: "takeWhile isDigit (p @ CHR ''-'' # rest) = takeWhile isDigit p"
    by (simp add: takeWhile_stop)
  have d: "dropWhile isDigit (p @ CHR ''-'' # rest) = dropWhile isDigit p @ CHR ''-'' # rest"
    by (simp add: dropWhile_stop)
  from dropWhile_isDigit_head [OF assms] show ?thesis
  proof
    assume e: "dropWhile isDigit p = []"
    show ?thesis
      by (simp add: scanUnsigned_def t d e scanFraction_def scanExponent_def Let_def)
  next
    assume "\<exists>q. dropWhile isDigit p = CHR ''.'' # q \<and> set q \<subseteq> set p"
    then obtain q where q: "dropWhile isDigit p = CHR ''.'' # q" and sub: "set q \<subseteq> set p"
      by blast
    have qd: "\<forall>ch \<in> set q. isDigit ch \<or> ch = CHR ''.''"
      using assms sub by blast
    have x: "scanExponent (dropWhile isDigit q) = 0
           \<and> scanExponent (dropWhile isDigit q @ CHR ''-'' # rest) = 0"
      using dropWhile_isDigit_head [OF qd]
    proof
      assume e: "dropWhile isDigit q = []"
      show ?thesis by (simp add: scanExponent_def e)
    next
      assume "\<exists>q'. dropWhile isDigit q = CHR ''.'' # q' \<and> set q' \<subseteq> set q"
      then obtain q' where e: "dropWhile isDigit q = CHR ''.'' # q'" by blast
      show ?thesis by (simp add: scanExponent_def e)
    qed
    note x1 = x [THEN conjunct1] and x2 = x [THEN conjunct2]
    show ?thesis
      by (simp add: scanUnsigned_def t d q scanFraction_def takeWhile_stop dropWhile_stop x1 x2
          Let_def)
  qed
qed

lemma parseFloat_before_hyphen:
  assumes "\<forall>ch \<in> set p. isDigit ch \<or> ch = CHR ''.''" and "p \<noteq> []"
  shows "parseFloat (p @ CHR ''-'' # rest) = parseFloat p"
proof -
  obtain c r where p: "p = c # r" using assms(2) by (cases p) auto
  then have c: "isDigit c \<or> c = CHR ''.''" using assms(1) by simp
  then have ne: "c \<noteq> CHR ''-''" "c \<noteq> CHR ''+''" "c \<noteq> CHR ''I''" "\<not> isWhiteSpace c"
    by (auto simp: isDigit_not_space)
  have dw: "dropWhile isWhiteSpace (p @ CHR ''-'' # rest) = p @ CHR ''-'' # rest"
       "dropWhile isWhiteSpace p = p"
    using ne by (simp_all add: p)
  have sg: "scanSign (p @ CHR ''-'' # rest) = (False, p @ CHR ''-'' # rest)"
       "scanSign p = (False, p)"
    using ne by (simp_all add: scanSign_def p)
  have inf: "take 8 (p @ CHR ''-'' # rest) \<noteq> ''Infinity''" "take 8 p \<noteq> ''Infinity''"
    using ne by (simp_all add: p)
  show ?thesis
    using inf by (simp add: parseFloat_def dw sg scanUnsigned_before_hyphen [OF assms(1)])
qed

lemma keepChar_cases: "keepChar ch \<Longrightarrow> isDigit ch \<or> ch = CHR ''.'' \<or> ch = CHR ''-'' \<or> ch = CHR '',''"
  by (simp add: keepChar_def)

lemma parseFloat_first_part:
  assumes "CHR '','' \<notin> set (cleanVal s)" and "take 1 (cleanVal s) \<noteq> ''-''"
  shows "parseFloat (cleanVal s) = parseFloat (hd (split_on CHR ''-'' (cleanVal s)))"
proof -
  define c where "c = cleanVal s"
  define p where "p = takeWhile (\<lambda>ch. ch \<noteq> CHR ''-'') c"
  have pd: "\<forall>ch \<in> set p. isDigit ch \<or> ch = CHR ''.''"
  proof
    fix ch assume a: "ch \<in> set p"
    then have "ch \<noteq> CHR ''-''" "ch \<in> set c"
      by (auto simp: p_def dest: set_takeWhileD)
    with assms(1) keepChar_cases [of ch] cleanVal_chars [of ch s]
    show "isDigit ch \<or> ch = CHR ''.''" by (auto simp: c_def)
  qed
  show ?thesis
  proof (cases "dropWhile (\<lambda>ch. ch \<noteq> CHR ''-'') c")
    case Nil
    then have "takeWhile (\<lambda>ch. ch \<noteq> CHR ''-'') c = c" by simp
    then show ?thesis by (simp only: hd_split_on c_def [symmetric])
  next
    case (Cons y ys)
    then have y: "y = CHR ''-''" using hd_dropWhile [of "\<lambda>ch. ch \<noteq> CHR ''-''" c] by auto
    have c: "c = p @ CHR ''-'' # ys"
      using takeWhile_dropWhile_id [of "\<lambda>ch. ch \<noteq> CHR ''-''" c] Cons y by (simp add: p_def)
    have "p \<noteq> []"
    proof
      assume "p = []"
      with c have "take 1 c = ''-''" by simp
      with assms(2) show False by (simp add: c_def)
    qed
    from parseFloat_before_hyphen [OF pd this, of ys] c
    have "parseFloat c = parseFloat p" by simp
    then show ?thesis by (simp only: hd_split_on c_def [symmetric] p_def [symmetric])
  qed
qed

lemma parsedParts_no_digit:
  assumes "\<forall>ch \<in> set c. \<not> isDigit ch \<and> ch \<noteq> CHR ''I''"
  shows "parsedParts d c = []"
proof -
  have "parseFloat w = NaN" if "w \<in> set (split_on d c)" for w
    using split_on_chars [OF that] assms by (intro parseFloat_no_digit) blast
  then show ?thesis
    by (auto simp: parsedParts_def filter_empty_conv)
qed

lemma no_digit_absent:
  assumes "\<forall>ch \<in> set s. \<not> isDigit ch"
  shows "parseCoordinates (Str s) = Inr None"
proof (cases "s = []")
  case True
  then show ?thesis by (simp add: parseCoordinates_def)
next
  case False
  define c where "c = cleanVal s"
  have nd: "\<forall>ch \<in> set c. \<not> isDigit ch \<and> ch \<noteq> CHR ''I''"
    using assms cleanVal_chars [of _ s] by (auto simp: c_def keepChar_def)
  have "tryBody c = Inr None"
  proof (cases "CHR '','' \<in> set c")
    case True
    then show ?thesis
      by (simp add: tryBody_comma parsedParts_no_digit [OF nd])
  next
    case False
    have "length (parsedParts CHR ''-'' c) \<noteq> 2"
      by (simp add: parsedParts_no_digit [OF nd])
    with False show ?thesis
      by (simp add: tryBody_fallback parseFloat_no_digit [OF nd])
  qed
  with False show ?thesis
    by (simp add: parseCoordinates_Str c_def)
qed

lemma split_on_absent: "d \<notin> set s \<Longrightarrow> split_on d s = [s]"
  by (induction s) auto

lemma no_part_parses_absent:
  assumes "parsedParts CHR '','' (cleanVal s) = []" and "parsedParts CHR ''-'' (cleanVal s) = []"
  shows "parseCoordinates (Str s) = Inr None"
proof (cases "s = []")
  case True
  then show ?thesis by (simp add: parseCoordinates_def)
next
  case False
  have "tryBody (cleanVal s) = Inr None"
  proof (cases "CHR '','' \<in> set (cleanVal s)")
    case True
    then show ?thesis
      by (simp add: tryBody_comma assms(1))
  next
    case False
    then have "parsedParts CHR '','' (cleanVal s) = filter (\<lambda>n. \<not> isNaN n) [parseFloat (cleanVal s)]"
      by (simp add: parsedParts_def split_on_absent)
    with assms(1) have "isNaN (parseFloat (cleanVal s))"
      by (simp split: if_splits)
    moreover have "length (parsedParts CHR ''-'' (cleanVal s)) \<noteq> 2"
      by (simp add: assms(2))
    ultimately show ?thesis
      using False by (simp add: tryBody_fallback)
  qed
  with False show ?thesis
    by (simp add: parseCoordinates_Str)
qed

lemma number_passes_through: "parseCoordinates (Number n) = Inr (Some n)"
  by (simp add: parseCoordinates_def)

lemma parseCoordinates_returns: "\<exists>r. parseCoordinates v = Inr r"
  by (cases v) (auto simp: parseCoordinates_def split: sum.splits)

subsection \<open>When the result is absent\<close>

lemma tryBody_absent_iff:
  "tryBody c = Inr None \<longleftrightarrow>
     (if CHR '','' \<in> set c then parsedParts CHR '','' c = []
      else \<not> (rangeBranch c \<and> length (parsedParts CHR ''-'' c) = 2) \<and> isNaN (parseFloat c))"
  by (auto simp: tryBody_def round6_roundTo6 fallback_def Let_def)

lemma parseCoordinates_Str_eq:
  "parseCoordinates (Str s) = (if s = [] then Inr None else tryBody (cleanVal s))"
  using tryBody_returns [of "cleanVal s"] by (auto simp: parseCoordinates_def)

lemma absent_iff:
  "parseCoordinates (Str s) = Inr None \<longleftrightarrow>
     s = [] \<or> (if CHR '','' \<in> set (cleanVal s) then parsedParts CHR '','' (cleanVal s) = []
               else \<not> (rangeBranch (cleanVal s) \<and> length (parsedParts CHR ''-'' (cleanVal s)) = 2)
                    \<and> isNaN (parseFloat (cleanVal s)))"
  by (simp only: parseCoordinates_Str_eq tryBody_absent_iff split: if_splits) auto

subsection \<open>Segments too large for binary64\<close>

lemma numDigits_nonneg: "0 \<le> numDigits b n"
  by (induction b n rule: numDigits.induct) (simp add: numDigits.simps)

lemma numDigits_ge: "2 ^ k \<le> n \<Longrightarrow> int k + 1 \<le> numDigits 2 n"
proof (induction k arbitrary: n)
  case 0
  then have "numDigits 2 n = 1 + numDigits 2 (n div 2)"
    by (simp add: numDigits.simps [of 2 n])
  then show ?case using numDigits_nonneg [of 2 "n div 2"] by simp
next
  case (Suc k)
  then have "2 ^ k \<le> n div 2" by simp
  then have "int k + 1 \<le> numDigits 2 (n div 2)" by (rule Suc.IH)
  moreover have "0 < n" using Suc.prems by (smt (verit) zero_less_power)
  then have "numDigits 2 n = 1 + numDigits 2 (n div 2)"
    by (simp add: numDigits.simps [of 2 n])
  ultimately show ?case by simp
qed

lemma ilog2_of_int: "2 ^ 1025 \<le> p \<Longrightarrow> 1024 \<le> ilog2 (of_int p)"
proof -
  assume p: "2 ^ 1025 \<le> p"
  have "int 1025 + 1 \<le> numDigits 2 p"
    using p by (intro numDigits_ge) simp
  moreover have "numDigits 2 1 = 1"
    by (simp add: numDigits.simps [of 2 1] numDigits.simps [of 2 0])
  ultimately show ?thesis
    by (simp add: ilog2_def Let_def)
qed

lemma to_double_overflow:
  assumes "2 ^ 1025 \<le> p"
  shows "to_double (of_int p) = Infinity False" and "to_double (- of_int p) = Infinity True"
proof -
  have pos: "0 < p" using assms by (smt (verit) zero_less_power)
  have e: "1023 < ilog2 (rat_of_int p)"
    using ilog2_of_int [OF assms] by simp
  have a: "\<bar>rat_of_int p\<bar> = rat_of_int p" "\<bar>- rat_of_int p\<bar> = rat_of_int p"
    using pos by simp_all
  show "to_double (of_int p) = Infinity False"
    using pos e by (simp add: to_double_def Let_def a)
  show "to_double (- of_int p) = Infinity True"
    using pos e by (simp add: to_double_def Let_def a)
qed

lemma parseFloat_digits:
  assumes "\<forall>c \<in> set ds. isDigit c" and "ds \<noteq> []"
  shows "parseFloat ds = to_double (of_int (digitsVal ds))"
    and "parseFloat (CHR ''-'' # ds) = to_double (- of_int (digitsVal ds))"
proof -
  obtain c r where ds: "ds = c # r" using assms(2) by (cases ds) auto
  then have c: "isDigit c" using assms(1) by simp
  then have ne: "c \<noteq> CHR ''-''" "c \<noteq> CHR ''+''" "c \<noteq> CHR ''I''" "\<not> isWhiteSpace c"
    by (auto simp: isDigit_not_space)
  have t: "takeWhile isDigit ds = ds" "dropWhile isDigit ds = []"
    using assms(1) by simp_all
  have u: "scanUnsigned ds = Some (of_int (digitsVal ds))"
    using assms(2) by (simp add: scanUnsigned_def t scanFraction_def scanExponent_def pow10_def Let_def)
  have dw: "dropWhile isWhiteSpace ds = ds" using ne by (simp add: ds)
  have sg: "scanSign ds = (False, ds)" using ne by (simp add: scanSign_def ds)
  have inf: "take 8 ds \<noteq> ''Infinity''" using ne by (simp add: ds)
  show "parseFloat ds = to_double (of_int (digitsVal ds))"
    using inf by (simp add: parseFloat_def dw sg u)
  show "parseFloat (CHR ''-'' # ds) = to_double (- of_int (digitsVal ds))"
    using inf by (simp add: parseFloat_def scanSign_def u)
qed

lemma trim_id: "\<forall>c \<in> set s. \<not> isWhiteSpace c \<Longrightarrow> trim s = s"
proof -
  assume a: "\<forall>c \<in> set s. \<not> isWhiteSpace c"
  have d: "dropWhile isWhiteSpace xs = xs" if "\<forall>c \<in> set xs. \<not> isWhiteSpace c" for xs
    using that by (cases xs) auto
  have "dropWhile isWhiteSpace s = s"
    using a by (rule d)
  moreover have "dropWhile isWhiteSpace (rev s) = rev s"
    using a by (intro d) simp
  ultimately show ?thesis by (simp add: trim_def)
qed

lemma cleanVal_id: "\<forall>c \<in> set s. keepChar c \<Longrightarrow> cleanVal s = s"
proof -
  assume a: "\<forall>c \<in> set s. keepChar c"
  then have "filter keepChar s = s" by simp
  moreover have "\<forall>c \<in> set s. \<not> isWhiteSpace c"
    using a by (auto simp: keepChar_def isDigit_not_space)
  ultimately show ?thesis by (simp add: cleanVal_def trim_id)
qed

lemma split_on_append: "d \<notin> set a \<Longrightarrow> split_on d (a @ d # b) = a # split_on d b"
  by (induction a) auto

lemma hugeDigits_facts:
  "\<forall>c \<in> set hugeDigits. isDigit c" "hugeDigits \<noteq> []" "digitsVal hugeDigits = 10 ^ 309"
proof -
  show "\<forall>c \<in> set hugeDigits. isDigit c" by (auto simp: hugeDigits_def isDigit_def)
  show "hugeDigits \<noteq> []" by (simp add: hugeDigits_def)
  have "digitsVal ([CHR ''1''] @ (replicate 309 CHR ''0'' @ [])) = 10 ^ 309"
    unfolding digitsVal_append [of "[CHR ''1'']"] digitsVal_zeros
    by (simp add: digitsVal_def digitVal_def)
  then show "digitsVal hugeDigits = 10 ^ 309" by (simp add: hugeDigits_def)
qed

lemma parseFloat_hugeDigits:
  "parseFloat hugeDigits = Infinity False" "parseFloat (CHR ''-'' # hugeDigits) = Infinity True"
proof -
  have big: "(2 :: int) ^ 1025 \<le> 10 ^ 309" by simp
  have v: "rat_of_int (digitsVal hugeDigits) = rat_of_int (10 ^ 309)"
    by (simp only: hugeDigits_facts(3))
  show "parseFloat hugeDigits = Infinity False"
    unfolding parseFloat_digits(1) [OF hugeDigits_facts(1,2)] v
    by (rule to_double_overflow(1) [OF big])
  show "parseFloat (CHR ''-'' # hugeDigits) = Infinity True"
    unfolding parseFloat_digits(2) [OF hugeDigits_facts(1,2)] v
    by (rule to_double_overflow(2) [OF big])
qed

lemma overflowing_list_gives_NaN:
  "parseCoordinates (Str (CHR ''-'' # hugeDigits @ CHR '','' # hugeDigits)) = Inr (Some NaN)"
proof -
  let ?s = "CHR ''-'' # hugeDigits @ CHR '','' # hugeDigits"
  have k: "\<forall>c \<in> set ?s. keepChar c"
    using hugeDigits_facts(1) by (auto simp: keepChar_def)
  have c: "cleanVal ?s = ?s" by (rule cleanVal_id [OF k])
  have nc: "CHR '','' \<notin> set hugeDigits"
    using hugeDigits_facts(1) by auto
  have "split_on CHR '','' ((CHR ''-'' # hugeDigits) @ CHR '','' # hugeDigits)
      = (CHR ''-'' # hugeDigits) # split_on CHR '','' hugeDigits"
    using nc by (intro split_on_append) simp
  then have sp: "split_on CHR '','' ?s = [CHR ''-'' # hugeDigits, hugeDigits]"
    using nc by (simp add: split_on_absent)
  have "parsedParts CHR '','' ?s
      = filter (\<lambda>n. \<not> isNaN n) (map parseFloat [CHR ''-'' # hugeDigits, hugeDigits])"
    by (simp only: parsedParts_def sp)
  then have pp: "parsedParts CHR '','' ?s = [Infinity True, Infinity False]"
    by (simp add: parseFloat_hugeDigits)
  have "tryBody ?s = Inr (Some NaN)"
    by (simp add: tryBody_comma pp mean_def roundTo6_def)
  then show ?thesis
    by (simp add: parseCoordinates_Str_eq c)
qed

subsection \<open>The exporter\<close>

lemma join_Cons_Cons: "ys \<noteq> [] \<Longrightarrow> join sep (x # ys) = x @ sep @ join sep ys"
  by (cases ys) simp_all

lemma header_line:
  "join '','' headers = ''Year,Authors,Title,Journal,Open_Access,Scale,Continent,Country,Longitude,Latitude,Sampling_Year,Sampling_Design,Sampling_Depth,Soil_Status,LULC,Spectrometer,Spectral_Region,Spectral_Range_Val,Spectral_Library,Spectral_Preprocessing,Transfer_Learning,Target_Property,No_Samples_Cal,No_Samples_Val,Split_Method,Variable_Selection,Calibration_Model,Auxiliary_Predictors,Validation_Type,R2,RMSE,RPIQ,r''"
  by (simp add: headers_def)

lemma length_headers: "length headers = 33"
  by (simp add: headers_def)

lemma nonempty_export_downloads:
  assumes "rows \<noteq> []"
  shows "downloads (exportToCSV (Some rows) filename w) =
         downloads w @ [(filename, \<lparr>blob_parts = csvContent rows, blob_type = ''text/csv;charset=utf-8;''\<rparr>)]"
    and "body_children (exportToCSV (Some rows) filename w) = body_children w"
  using assms
  by (simp_all add: exportToCSV_def createObjectURL_def createAnchor_def appendChild_def
        click_def removeLastChild_def nth_append Let_def)

lemma replaceQuotes_concat:
  "replaceQuotes t = concat (map (\<lambda>c. if c = CHR 0x22 then [CHR 0x22, CHR 0x22] else [c]) t)"
  by (induction t) simp_all

lemma cell_quotedCell: "cell row h = quotedCell (fieldRepr row h)"
  by (simp add: cell_def getProp_def fieldRepr_def quotedCell_def replaceQuotes_concat Let_def
      split: option.splits jsval.splits)

subsection \<open>Reading back what the exporter wrote\<close>

lemma csvRead_plain:
  assumes "\<forall>c \<in> set t. c \<noteq> CHR '','' \<and> c \<noteq> CHR 0x22 \<and> c \<noteq> CHR 0x0A \<and> c \<noteq> CHR 0x0D"
    and "st = FieldStart \<or> st = Unquoted"
  shows "csvRead st f r (t @ rest) = csvRead (if t = [] then st else Unquoted) (f @ t) r rest"
  using assms
proof (induction t arbitrary: st f)
  case Nil
  show ?case by simp
next
  case (Cons c t)
  have "csvRead st f r ((c # t) @ rest) = csvRead Unquoted (f @ [c]) r (t @ rest)"
    using Cons.prems by auto
  also have "\<dots> = csvRead (if t = [] then Unquoted else Unquoted) ((f @ [c]) @ t) r rest"
    using Cons.prems by (intro Cons.IH) auto
  finally show ?case by simp
qed

lemma csvRead_quoted:
  "csvRead Quoted f r (replaceQuotes t @ CHR 0x22 # rest) = csvRead QuoteSeen (f @ t) r rest"
  by (induction t arbitrary: f) simp_all

lemma csvRead_end_of_field:
  assumes "st = FieldStart \<and> f = [] \<or> st = Unquoted \<or> st = QuoteSeen"
  shows "csvRead st f r (CHR '','' # cs) = csvRead FieldStart [] (r @ [f]) cs"
    and "csvRead st f r (CHR 0x0A # cs) = (r @ [f]) # csvRead FieldStart [] [] cs"
    and "r \<noteq> [] \<Longrightarrow> csvRead st f r [] = [r @ [f]]"
  using assms by auto

lemma csvRead_cell:
  assumes "lineBreaksQuoted t"
  shows "csvRead FieldStart [] r (quotedCell (Some t) @ CHR '','' # cs)
         = csvRead FieldStart [] (r @ [t]) cs"
    and "csvRead FieldStart [] r (quotedCell (Some t) @ CHR 0x0A # cs)
         = (r @ [t]) # csvRead FieldStart [] [] cs"
    and "r \<noteq> [] \<Longrightarrow> csvRead FieldStart [] r (quotedCell (Some t)) = [r @ [t]]"
proof -
  have *: "\<exists>st. (st = FieldStart \<and> t = [] \<or> st = Unquoted \<or> st = QuoteSeen)
             \<and> (\<forall>rest. csvRead FieldStart [] r (quotedCell (Some t) @ rest) = csvRead st t r rest)"
  proof (cases "CHR '','' \<in> set t \<or> CHR 0x22 \<in> set t")
    case True
    then have q: "quotedCell (Some t) = CHR 0x22 # replaceQuotes t @ [CHR 0x22]"
      by (auto simp: quotedCell_def replaceQuotes_concat)
    have "csvRead FieldStart [] r (quotedCell (Some t) @ rest) = csvRead QuoteSeen t r rest" for rest
      using csvRead_quoted [of "[]" r t rest] by (simp add: q)
    then show ?thesis by blast
  next
    case False
    then have q: "quotedCell (Some t) = t"
      by (simp add: quotedCell_def)
    from False assms
    have plain: "\<forall>c \<in> set t. c \<noteq> CHR '','' \<and> c \<noteq> CHR 0x22 \<and> c \<noteq> CHR 0x0A \<and> c \<noteq> CHR 0x0D"
      by (auto simp: lineBreaksQuoted_def)
    have "csvRead FieldStart [] r (quotedCell (Some t) @ rest)
        = csvRead (if t = [] then FieldStart else Unquoted) t r rest" for rest
      using csvRead_plain [OF plain, of FieldStart "[]" r rest] by (simp add: q)
    then show ?thesis by (cases "t = []") auto
  qed
  then obtain st where st: "st = FieldStart \<and> t = [] \<or> st = Unquoted \<or> st = QuoteSeen"
    and rd: "\<And>rest. csvRead FieldStart [] r (quotedCell (Some t) @ rest) = csvRead st t r rest"
    by blast
  show "csvRead FieldStart [] r (quotedCell (Some t) @ CHR '','' # cs)
         = csvRead FieldStart [] (r @ [t]) cs"
    using csvRead_end_of_field(1) [OF st] by (simp only: rd)
  show "csvRead FieldStart [] r (quotedCell (Some t) @ CHR 0x0A # cs)
         = (r @ [t]) # csvRead FieldStart [] [] cs"
    using csvRead_end_of_field(2) [OF st] by (simp only: rd)
  show "csvRead FieldStart [] r (quotedCell (Some t)) = [r @ [t]]" if "r \<noteq> []"
    using csvRead_end_of_field(3) [OF st that] rd [of "[]"] by simp
qed

lemma csvRead_line:
  assumes "\<forall>t \<in> set vs. lineBreaksQuoted t" and "vs \<noteq> []"
  shows "csvRead FieldStart [] r (csvLine vs @ CHR 0x0A # cs) = (r @ vs) # csvRead FieldStart [] [] cs"
    and "r \<noteq> [] \<or> 2 \<le> length vs \<Longrightarrow> csvRead FieldStart [] r (csvLine vs) = [r @ vs]"
proof -
  have "csvRead FieldStart [] r (csvLine vs @ CHR 0x0A # cs) = (r @ vs) # csvRead FieldStart [] [] cs
      \<and> (r \<noteq> [] \<or> 2 \<le> length vs \<longrightarrow> csvRead FieldStart [] r (csvLine vs) = [r @ vs])"
    using assms
  proof (induction vs arbitrary: r rule: induct_list012)
    case 1
    then show ?case by simp
  next
    case (2 t)
    then show ?case
      using csvRead_cell(2,3) [of t r] by (auto simp: csvLine_def)
  next
    case (3 t u us)
    have eq: "csvLine (t # u # us) = quotedCell (Some t) @ CHR '','' # csvLine (u # us)"
      by (simp add: csvLine_def)
    have t: "lineBreaksQuoted t" using "3.prems" by simp
    have ih: "csvRead FieldStart [] (r @ [t]) (csvLine (u # us) @ CHR 0x0A # cs)
              = ((r @ [t]) @ u # us) # csvRead FieldStart [] [] cs
            \<and> csvRead FieldStart [] (r @ [t]) (csvLine (u # us)) = [(r @ [t]) @ u # us]"
      using "3.IH"(2) [of "r @ [t]"] "3.prems" by simp
    show ?case
      using ih by (simp add: eq csvRead_cell(1) [OF t])
  qed
  then show "csvRead FieldStart [] r (csvLine vs @ CHR 0x0A # cs) = (r @ vs) # csvRead FieldStart [] [] cs"
    and "r \<noteq> [] \<or> 2 \<le> length vs \<Longrightarrow> csvRead FieldStart [] r (csvLine vs) = [r @ vs]"
    by blast+
qed

lemma csvRead_document:
  assumes "\<forall>vs \<in> set rows. 2 \<le> length vs \<and> (\<forall>t \<in> set vs. lineBreaksQuoted t)"
  shows "csvRead FieldStart [] [] (join [CHR 0x0A] (map csvLine rows)) = rows"
  using assms
proof (induction rows)
  case Nil
  show ?case by simp
next
  case (Cons vs rows)
  have vs: "\<forall>t \<in> set vs. lineBreaksQuoted t" "vs \<noteq> []" "2 \<le> length vs"
    using Cons.prems by auto
  show ?case
  proof (cases rows)
    case Nil
    then show ?thesis using csvRead_line(2) [OF vs(1,2), of "[]"] vs(3) by simp
  next
    case (Cons ws wss)
    then have "join [CHR 0x0A] (map csvLine (vs # rows))
             = csvLine vs @ CHR 0x0A # join [CHR 0x0A] (map csvLine rows)"
      by simp
    then show ?thesis
      using csvRead_line(1) [OF vs(1,2), of "[]"] Cons.IH Cons.prems by simp
  qed
qed

lemma headers_plain: "\<forall>h \<in> set headers. quotedCell (Some h) = h \<and> lineBreaksQuoted h"
  by (simp add: headers_def quotedCell_def lineBreaksQuoted_def)

lemma csvContent_lines: "csvContent data = join [CHR 0x0A] (map csvLine (expectedRows data))"
proof -
  have "map (\<lambda>t. quotedCell (Some t)) headers = headers"
    using headers_plain by (simp add: map_idI)
  then have h: "join '','' headers = csvLine headers"
    by (simp add: csvLine_def)
  have c: "cell row h = quotedCell (Some (fieldText row h))" for row h
    by (simp add: cell_quotedCell fieldText_def quotedCell_def split: option.splits)
  have "cell row = (\<lambda>h. quotedCell (Some (fieldText row h)))" for row
    by (rule ext) (rule c)
  then have "join '','' (map (cell row) headers) = csvLine (map (fieldText row) headers)" for row
    by (simp add: csvLine_def comp_def)
  with h show ?thesis
    by (simp add: csvContent_def expectedRows_def comp_def)
qed

lemma round_trip_when_line_breaks_are_quoted:
  assumes "\<forall>row \<in> set data. \<forall>h \<in> set headers. lineBreaksQuoted (fieldText row h)"
  shows "parseCsv (csvContent data) = expectedRows data"
proof -
  have "\<forall>vs \<in> set (expectedRows data). 2 \<le> length vs \<and> (\<forall>t \<in> set vs. lineBreaksQuoted t)"
    using assms headers_plain by (auto simp: expectedRows_def length_headers)
  then show ?thesis
    unfolding parseCsv_def csvContent_lines by (rule csvRead_document)
qed

subsection \<open>The model on known values\<close>

text \<open>
  The number model reproduces what JavaScript prints and reads: \<open>0.1\<close> is the binary64
  value \<open>3602879701896397 / 2 ^ 55\<close> and prints as \<open>0.1\<close>; \<open>2025\<close> prints as \<open>2025\<close> and
  \<open>10 ^ 23\<close> as \<open>1e+23\<close>; \<open>(20).toFixed(6)\<close> is \<open>20.000000\<close>. The examples of the
  specification for \<open>parseCoordinates\<close> evaluate as stated there.
\<close>

lemma number_model_examples:
  "to_double (1 / 10) = Num (3602879701896397 / 36028797018963968)"
  "Number_toString (to_double (1 / 10)) = ''0.1''"
  "Number_toString (Num 2025) = ''2025''"
  "Number_toString (to_double (10 ^ 23)) = ''1e+23''"
  "toFixed (Num 20) 6 = Inr ''20.000000''"
  "toFixed (Num (- 1 / 10000000)) 6 = Inr ''-0.000000''"
  "parseFloat ''1.5e3'' = Num 1500"
  by code_simp+

lemma parseCoordinates_examples:
  "parseCoordinates Undefined = Inr None"
  "parseCoordinates (Str []) = Inr None"
  "parseCoordinates (Number (Num 42)) = Inr (Some (Num 42))"
  "parseCoordinates (Str [CHR ''1'', CHR ''0'', CHR 0xB0, CHR ''N'']) = Inr (Some (Num 10))"
  "parseCoordinates (Str ''abc'') = Inr None"
  "parseCoordinates (Str ''1--2'') = Inr (Some (Num (3 / 2)))"
  "parseCoordinates (Str ''.-1-2-3'') = Inr None"
  by code_simp+

section \<open>The claims of the specification\<close>

text \<open>
  C1, as stated, fails. The cleaned text \<open>10-20-30\<close> has no comma, does not start with a
  hyphen and has three numeric parts, so the range branch is passed over; but
  \<open>parseFloat\<close> of the whole text reads the longest numeric prefix and returns \<open>10\<close>,
  not \<open>NaN\<close>, so the result is \<open>10\<close> and not absent.
\<close>

theorem multi_hyphen_not_absent:
  "CHR '','' \<notin> set (cleanVal ''10-20-30'') \<and> take 1 (cleanVal ''10-20-30'') \<noteq> ''-''
   \<and> length (parsedParts CHR ''-'' (cleanVal ''10-20-30'')) = 3
   \<and> parseCoordinates (Str ''10-20-30'') = Inr (Some (Num 10))"
  by code_simp

text \<open>
  C1, amended. When the cleaned text has no comma, does not start with a hyphen and has
  three or more hyphen-separated numeric parts, \<open>parseCoordinates\<close> falls through the
  range branch to \<open>parseFloat\<close> of the whole cleaned text; that is the number read from
  the text before the first hyphen, and the result is absent only when that text does
  not start with a number.
\<close>

theorem multi_hyphen_falls_through:
  "CHR '','' \<notin> set (cleanVal s) \<and> take 1 (cleanVal s) \<noteq> ''-''
   \<and> 3 \<le> length (parsedParts CHR ''-'' (cleanVal s)) \<longrightarrow>
     parseCoordinates (Str s)
     = Inr (if isNaN (parseFloat (cleanVal s)) then None else Some (parseFloat (cleanVal s)))
     \<and> parseFloat (cleanVal s) = parseFloat (hd (split_on CHR ''-'' (cleanVal s)))"
proof (intro impI, elim conjE)
  assume nc: "CHR '','' \<notin> set (cleanVal s)" and lead: "take 1 (cleanVal s) \<noteq> ''-''"
    and three: "3 \<le> length (parsedParts CHR ''-'' (cleanVal s))"
  have "s \<noteq> []"
  proof
    assume "s = []"
    then have "parsedParts CHR ''-'' (cleanVal s) = []"
      by (simp add: cleanVal_def trim_def parsedParts_def parseFloat_def scanSign_def
          scanUnsigned_def scanFraction_def)
    with three show False by simp
  qed
  moreover have "tryBody (cleanVal s)
      = Inr (if isNaN (parseFloat (cleanVal s)) then None else Some (parseFloat (cleanVal s)))"
    using nc three by (intro tryBody_fallback) simp_all
  ultimately have "parseCoordinates (Str s)
      = Inr (if isNaN (parseFloat (cleanVal s)) then None else Some (parseFloat (cleanVal s)))"
    by (rule parseCoordinates_Str)
  with parseFloat_first_part [OF nc lead]
  show "parseCoordinates (Str s)
     = Inr (if isNaN (parseFloat (cleanVal s)) then None else Some (parseFloat (cleanVal s)))
     \<and> parseFloat (cleanVal s) = parseFloat (hd (split_on CHR ''-'' (cleanVal s)))"
    by blast
qed

theorem multi_hyphen_falls_through_witness:
  "CHR '','' \<notin> set (cleanVal ''1-2-3-4'') \<and> take 1 (cleanVal ''1-2-3-4'') \<noteq> ''-''
   \<and> 3 \<le> length (parsedParts CHR ''-'' (cleanVal ''1-2-3-4''))
   \<and> parseCoordinates (Str ''1-2-3-4'') = Inr (Some (Num 1))
   \<and> parseFloat (hd (split_on CHR ''-'' (cleanVal ''1-2-3-4''))) = Num 1"
proof -
  have h: "CHR '','' \<notin> set (cleanVal ''1-2-3-4'') \<and> take 1 (cleanVal ''1-2-3-4'') \<noteq> ''-''
     \<and> 3 \<le> length (parsedParts CHR ''-'' (cleanVal ''1-2-3-4''))"
    by code_simp
  have p: "parseFloat (hd (split_on CHR ''-'' (cleanVal ''1-2-3-4''))) = Num 1" by code_simp
  from multi_hyphen_falls_through [of "''1-2-3-4''"] h
  have "parseCoordinates (Str ''1-2-3-4'')
     = Inr (if isNaN (parseFloat (cleanVal ''1-2-3-4'')) then None
            else Some (parseFloat (cleanVal ''1-2-3-4'')))"
    and "parseFloat (cleanVal ''1-2-3-4'') = parseFloat (hd (split_on CHR ''-'' (cleanVal ''1-2-3-4'')))"
    by blast+
  with h p show ?thesis by simp
qed

text \<open>
  C2 asks that reading the CSV text gives back every field of every record. The exporter
  quotes a cell only for a comma or a double quote, so a field with a line break and
  neither of these is written bare, and the reader ends the record there. For one record
  whose \<open>Title\<close> is \<open>a\<close>, a line feed, \<open>b\<close>, the text has three lines and reads back as
  three records: the header, a record of three fields ending in \<open>a\<close>, and a record of
  31 fields starting with \<open>b\<close>; the record to recover has 33 fields with the whole title
  as its third. (\<open>round_trip_when_line_breaks_are_quoted\<close> above shows that this is the
  only way the round trip fails.)
\<close>

theorem unquoted_line_break_splits_record:
  "csvContent [[''id'' \<mapsto> Str ''p1'', ''rawText'' \<mapsto> Str ''x'',
                ''Title'' \<mapsto> Str [CHR ''a'', CHR 0x0A, CHR ''b'']]]
     = join '','' headers @ [CHR 0x0A] @ '',,a'' @ [CHR 0x0A] @ ''b'' @ replicate 30 CHR '',''
   \<and> parseCsv (csvContent [[''id'' \<mapsto> Str ''p1'', ''rawText'' \<mapsto> Str ''x'',
                             ''Title'' \<mapsto> Str [CHR ''a'', CHR 0x0A, CHR ''b'']]])
     = [headers, [[], [], ''a''], ''b'' # replicate 30 []]
   \<and> expectedRows [[''id'' \<mapsto> Str ''p1'', ''rawText'' \<mapsto> Str ''x'',
                     ''Title'' \<mapsto> Str [CHR ''a'', CHR 0x0A, CHR ''b'']]]
     = [headers, [[], [], [CHR ''a'', CHR 0x0A, CHR ''b'']] @ replicate 30 []]
   \<and> parseCsv (csvContent [[''id'' \<mapsto> Str ''p1'', ''rawText'' \<mapsto> Str ''x'',
                             ''Title'' \<mapsto> Str [CHR ''a'', CHR 0x0A, CHR ''b'']]])
     \<noteq> expectedRows [[''id'' \<mapsto> Str ''p1'', ''rawText'' \<mapsto> Str ''x'',
                        ''Title'' \<mapsto> Str [CHR ''a'', CHR 0x0A, CHR ''b'']]]"
  by code_simp

text \<open>
  C3. When the cleaned text contains a comma, \<open>parseCoordinates\<close> splits it at the
  commas, parses each segment with \<open>parseFloat\<close> and drops the segments that give
  \<open>NaN\<close>; with no segment left the result is absent, otherwise it is the mean of the
  parsed segments rounded to six decimal places. \<open>"10, 20, 30"\<close> gives \<open>20\<close>.
\<close>

theorem comma_list_mean:
  "(CHR '','' \<in> set (cleanVal s) \<longrightarrow>
      parseCoordinates (Str s)
      = Inr (if parsedParts CHR '','' (cleanVal s) = [] then None
             else Some (roundTo6 (mean (parsedParts CHR '','' (cleanVal s))))))
   \<and> parseCoordinates (Str ''10, 20, 30'') = Inr (Some (Num 20))"
proof -
  have "parseCoordinates (Str s)
      = Inr (if parsedParts CHR '','' (cleanVal s) = [] then None
             else Some (roundTo6 (mean (parsedParts CHR '','' (cleanVal s)))))"
    if "CHR '','' \<in> set (cleanVal s)"
    using that cleanVal_nonempty [OF that]
    by (intro parseCoordinates_Str) (simp_all add: tryBody_comma Let_def)
  moreover have "parseCoordinates (Str ''10, 20, 30'') = Inr (Some (Num 20))"
    by code_simp
  ultimately show ?thesis by blast
qed

theorem comma_list_mean_witness:
  "CHR '','' \<in> set (cleanVal ''10, abc'')
   \<and> parsedParts CHR '','' (cleanVal ''10, abc'') = [Num 10]
   \<and> parseCoordinates (Str ''10, abc'') = Inr (Some (Num 10))"
proof -
  have h: "CHR '','' \<in> set (cleanVal ''10, abc'')" by code_simp
  have p: "parsedParts CHR '','' (cleanVal ''10, abc'') = [Num 10]" by code_simp
  have r: "roundTo6 (mean [Num 10]) = Num 10" by code_simp
  from comma_list_mean [of "''10, abc''"] h
  have "parseCoordinates (Str ''10, abc'')
      = Inr (if parsedParts CHR '','' (cleanVal ''10, abc'') = [] then None
             else Some (roundTo6 (mean (parsedParts CHR '','' (cleanVal ''10, abc'')))))"
    by blast
  then have "parseCoordinates (Str ''10, abc'') = Inr (Some (Num 10))"
    by (simp only: p r list.simps if_False)
  with h p show ?thesis by blast
qed



text \<open>
  C5. When the cleaned text starts with a hyphen and has no comma, the range branch is
  skipped and the result is \<open>parseFloat\<close> of the whole cleaned text, absent when that is
  \<open>NaN\<close>; the number read is never positive. \<open>"-10.5"\<close> gives \<open>-10.5\<close>.
\<close>

theorem leading_hyphen_is_sign:
  "(CHR '','' \<notin> set (cleanVal s) \<and> take 1 (cleanVal s) = ''-'' \<longrightarrow>
      parseCoordinates (Str s)
      = Inr (if isNaN (parseFloat (cleanVal s)) then None else Some (parseFloat (cleanVal s)))
      \<and> parseFloat (cleanVal s) \<noteq> Infinity False
      \<and> (\<forall>x. parseFloat (cleanVal s) = Num x \<longrightarrow> x \<le> 0))
   \<and> parseCoordinates (Str ''-10.5'') = Inr (Some (Num (- 21 / 2)))"
proof -
  have "parseCoordinates (Str s)
      = Inr (if isNaN (parseFloat (cleanVal s)) then None else Some (parseFloat (cleanVal s)))
      \<and> parseFloat (cleanVal s) \<noteq> Infinity False
      \<and> (\<forall>x. parseFloat (cleanVal s) = Num x \<longrightarrow> x \<le> 0)"
    if nc: "CHR '','' \<notin> set (cleanVal s)" and lead: "take 1 (cleanVal s) = ''-''"
  proof -
    from lead obtain u where u: "cleanVal s = CHR ''-'' # u"
      by (cases "cleanVal s") auto
    then have "CHR ''-'' \<in> set (cleanVal s)" by simp
    then have "s \<noteq> []" by (rule cleanVal_nonempty)
    moreover have "tryBody (cleanVal s)
        = Inr (if isNaN (parseFloat (cleanVal s)) then None else Some (parseFloat (cleanVal s)))"
      using nc lead by (intro tryBody_fallback) simp_all
    ultimately have "parseCoordinates (Str s)
        = Inr (if isNaN (parseFloat (cleanVal s)) then None else Some (parseFloat (cleanVal s)))"
      by (rule parseCoordinates_Str)
    then show ?thesis
      using parseFloat_leading_minus [of u] by (simp add: u)
  qed
  moreover have "parseCoordinates (Str ''-10.5'') = Inr (Some (Num (- 21 / 2)))"
    by code_simp
  ultimately show ?thesis by blast
qed

theorem leading_hyphen_is_sign_witness:
  "CHR '','' \<notin> set (cleanVal ''-33.5 S'') \<and> take 1 (cleanVal ''-33.5 S'') = ''-''
   \<and> parseFloat (cleanVal ''-33.5 S'') = Num (- 67 / 2)
   \<and> parseCoordinates (Str ''-33.5 S'') = Inr (Some (Num (- 67 / 2)))"
proof -
  have h: "CHR '','' \<notin> set (cleanVal ''-33.5 S'') \<and> take 1 (cleanVal ''-33.5 S'') = ''-''"
    by code_simp
  have p: "parseFloat (cleanVal ''-33.5 S'') = Num (- 67 / 2)" by code_simp
  from leading_hyphen_is_sign [of "''-33.5 S''"] h
  have "parseCoordinates (Str ''-33.5 S'')
      = Inr (if isNaN (parseFloat (cleanVal ''-33.5 S'')) then None
             else Some (parseFloat (cleanVal ''-33.5 S'')))"
    by blast
  with h p show ?thesis by simp
qed

text \<open>
  C6, as stated, fails in its last part. The function does terminate and never raises, but
  a malformed input does not always give absent: \<open>"5-"\<close> (a range without its second
  value) gives \<open>5\<close> and \<open>"1.5.3"\<close> gives \<open>1.5\<close>, since the fallback reads the longest
  numeric prefix. The value returned for a string can also be \<open>NaN\<close>: a comma list of
  \<open>-1\<close> and \<open>1\<close>, each followed by 309 zeros, parses to the two infinities, whose sum is
  \<open>NaN\<close>.
\<close>

theorem malformed_input_gives_number:
  "parseCoordinates (Str ''5-'') = Inr (Some (Num 5))
   \<and> parseCoordinates (Str ''1.5.3'') = Inr (Some (Num (3 / 2)))
   \<and> parseCoordinates (Str (CHR ''-'' # hugeDigits @ CHR '','' # hugeDigits)) = Inr (Some NaN)"
proof -
  have "parseCoordinates (Str ''5-'') = Inr (Some (Num 5))" by code_simp
  moreover have "parseCoordinates (Str ''1.5.3'') = Inr (Some (Num (3 / 2)))" by code_simp
  ultimately show ?thesis using overflowing_list_gives_NaN by blast
qed

text \<open>
  C6, amended. For every input \<open>parseCoordinates\<close> terminates (all functions of the model
  are total) and returns a value of the number type or absent, never an exception; the
  \<open>try\<close> block itself never throws, so the \<open>catch\<close> is never entered. An absent input
  gives absent and a numeric input is returned as it is. For a string the result is
  absent exactly when the string is empty, or the cleaned text has a comma and none of
  its comma-separated segments parses, or it has no comma, the range branch does not
  return (it needs a hyphen, no leading hyphen and exactly two parsed parts) and
  \<open>parseFloat\<close> of the whole cleaned text fails. When the fallback is reached its result
  is \<open>parseFloat\<close> of the whole cleaned text, absent if that is \<open>NaN\<close>. In particular
  the result is absent when no comma-separated and no hyphen-separated segment parses,
  and when the input has no digit at all.
\<close>

theorem never_raises:
  "(\<exists>r. parseCoordinates v = Inr r) \<and> (\<exists>r. tryBody c = Inr r)
   \<and> parseCoordinates Undefined = Inr None \<and> parseCoordinates Null = Inr None
   \<and> parseCoordinates (Number n) = Inr (Some n)
   \<and> (parseCoordinates (Str s) = Inr None \<longleftrightarrow>
        s = [] \<or> (if CHR '','' \<in> set (cleanVal s) then parsedParts CHR '','' (cleanVal s) = []
                  else \<not> (rangeBranch (cleanVal s) \<and> length (parsedParts CHR ''-'' (cleanVal s)) = 2)
                       \<and> isNaN (parseFloat (cleanVal s))))
   \<and> (s \<noteq> [] \<and> CHR '','' \<notin> set (cleanVal s)
        \<and> \<not> (rangeBranch (cleanVal s) \<and> length (parsedParts CHR ''-'' (cleanVal s)) = 2)
        \<longrightarrow> parseCoordinates (Str s)
            = Inr (if isNaN (parseFloat (cleanVal s)) then None else Some (parseFloat (cleanVal s))))
   \<and> (parsedParts CHR '','' (cleanVal s) = [] \<and> parsedParts CHR ''-'' (cleanVal s) = []
        \<longrightarrow> parseCoordinates (Str s) = Inr None)
   \<and> ((\<forall>ch \<in> set s. \<not> isDigit ch) \<longrightarrow> parseCoordinates (Str s) = Inr None)"
proof -
  have "parseCoordinates (Str s)
      = Inr (if isNaN (parseFloat (cleanVal s)) then None else Some (parseFloat (cleanVal s)))"
    if "s \<noteq> []" "CHR '','' \<notin> set (cleanVal s)"
       "\<not> (rangeBranch (cleanVal s) \<and> length (parsedParts CHR ''-'' (cleanVal s)) = 2)"
    using that by (auto simp: parseCoordinates_Str_eq tryBody_def fallback_def Let_def)
  moreover have "parseCoordinates Undefined = Inr None" "parseCoordinates Null = Inr None"
    by (simp_all add: parseCoordinates_def)
  moreover note absent_iff [of s] number_passes_through [of n]
  ultimately show ?thesis
    using parseCoordinates_returns [of v] tryBody_returns [of c] no_part_parses_absent [of s]
      no_digit_absent [of s]
    by blast
qed

theorem never_raises_witness:
  "parsedParts CHR '','' (cleanVal ''N/A'') = [] \<and> parsedParts CHR ''-'' (cleanVal ''N/A'') = []
   \<and> \<not> isDigit CHR ''N'' \<and> \<not> isDigit CHR ''/'' \<and> \<not> isDigit CHR ''A''
   \<and> parseCoordinates (Str ''N/A'') = Inr None
   \<and> CHR '','' \<notin> set (cleanVal ''5-'') \<and> length (parsedParts CHR ''-'' (cleanVal ''5-'')) = 1
   \<and> parseFloat (cleanVal ''5-'') = Num 5
   \<and> parseCoordinates (Str ''5-'') = Inr (Some (Num 5))
   \<and> CHR '','' \<notin> set (cleanVal ''--5'') \<and> take 1 (cleanVal ''--5'') = ''-''
   \<and> isNaN (parseFloat (cleanVal ''--5''))
   \<and> parseCoordinates (Str ''--5'') = Inr None"
proof -
  have h: "\<forall>ch \<in> set ''N/A''. \<not> isDigit ch" by (simp add: isDigit_def)
  have p: "parsedParts CHR '','' (cleanVal ''N/A'') = [] \<and> parsedParts CHR ''-'' (cleanVal ''N/A'') = []"
    by code_simp
  from never_raises [of "Str ''N/A''" "[]" "Num 0" "''N/A''"] p
  have a: "parseCoordinates (Str ''N/A'') = Inr None" by blast
  have q: "''5-'' \<noteq> [] \<and> CHR '','' \<notin> set (cleanVal ''5-'')
      \<and> length (parsedParts CHR ''-'' (cleanVal ''5-'')) = 1 \<and> parseFloat (cleanVal ''5-'') = Num 5"
    by code_simp
  then have q2: "\<not> (rangeBranch (cleanVal ''5-'') \<and> length (parsedParts CHR ''-'' (cleanVal ''5-'')) = 2)"
    by simp
  from never_raises [of "Str ''5-''" "[]" "Num 0" "''5-''"] q q2
  have "parseCoordinates (Str ''5-'')
      = Inr (if isNaN (parseFloat (cleanVal ''5-'')) then None else Some (parseFloat (cleanVal ''5-'')))"
    by blast
  with q have b: "parseCoordinates (Str ''5-'') = Inr (Some (Num 5))" by simp
  have r: "CHR '','' \<notin> set (cleanVal ''--5'') \<and> take 1 (cleanVal ''--5'') = ''-''
      \<and> isNaN (parseFloat (cleanVal ''--5''))"
    by code_simp
  then have r2: "\<not> rangeBranch (cleanVal ''--5'')"
    by (simp add: rangeBranch_def)
  from never_raises [of "Str ''--5''" "[]" "Num 0" "''--5''"] r r2
  have c: "parseCoordinates (Str ''--5'') = Inr None" by simp
  from h p a q b r c show ?thesis by simp
qed

text \<open>
  C7. For every non-empty record list the first line of the CSV text is the 33 field names
  of the schema joined by commas, in the declared order, whatever the records hold.
\<close>

theorem header_line_fixed:
  assumes "data \<noteq> []"
  shows "firstLine (csvContent data) = ''Year,Authors,Title,Journal,Open_Access,Scale,Continent,Country,Longitude,Latitude,Sampling_Year,Sampling_Design,Sampling_Depth,Soil_Status,LULC,Spectrometer,Spectral_Region,Spectral_Range_Val,Spectral_Library,Spectral_Preprocessing,Transfer_Learning,Target_Property,No_Samples_Cal,No_Samples_Val,Split_Method,Variable_Selection,Calibration_Model,Auxiliary_Predictors,Validation_Type,R2,RMSE,RPIQ,r''"
proof -
  let ?rows = "map (\<lambda>row. join '','' (map (cell row) headers)) data"
  have ne: "?rows \<noteq> []" using assms by simp
  have "csvContent data = join '','' headers @ [CHR 0x0A] @ join [CHR 0x0A] ?rows"
    unfolding csvContent_def by (rule join_Cons_Cons [OF ne])
  then show ?thesis
    unfolding firstLine_def header_line by simp
qed

theorem header_line_fixed_witness:
  "[Map.empty :: ProcessedPaper] \<noteq> [] \<and> firstLine (csvContent [Map.empty]) = ''Year,Authors,Title,Journal,Open_Access,Scale,Continent,Country,Longitude,Latitude,Sampling_Year,Sampling_Design,Sampling_Depth,Soil_Status,LULC,Spectrometer,Spectral_Region,Spectral_Range_Val,Spectral_Library,Spectral_Preprocessing,Transfer_Learning,Target_Property,No_Samples_Cal,No_Samples_Val,Split_Method,Variable_Selection,Calibration_Model,Auxiliary_Predictors,Validation_Type,R2,RMSE,RPIQ,r''"
  using header_line_fixed [of "[Map.empty]"] by simp

text \<open>
  C8. Every cell of the CSV text is the cell the specification asks for: empty for an
  absent field; the representation between double quotes, with each double quote
  doubled, when it contains a comma or a double quote; the representation itself
  otherwise. \<open>A "Test" Study\<close> is emitted as \<open>"A ""Test"" Study"\<close>.
\<close>

theorem cell_escaping:
  "csvContent data =
     join [CHR 0x0A] (join '','' headers
        # map (\<lambda>row. join '','' (map (\<lambda>h. quotedCell (fieldRepr row h)) headers)) data)
   \<and> cell row h = quotedCell (fieldRepr row h)
   \<and> cell [''Title'' \<mapsto> Str (''A '' @ [CHR 0x22] @ ''Test'' @ [CHR 0x22] @ '' Study'')] ''Title''
       = [CHR 0x22] @ ''A '' @ [CHR 0x22, CHR 0x22] @ ''Test'' @ [CHR 0x22, CHR 0x22] @ '' Study''
         @ [CHR 0x22]"
proof -
  have "csvContent data =
     join [CHR 0x0A] (join '','' headers
        # map (\<lambda>row. join '','' (map (\<lambda>h. quotedCell (fieldRepr row h)) headers)) data)"
  proof -
    have "cell row = (\<lambda>h. quotedCell (fieldRepr row h))" for row
      by (rule ext) (rule cell_quotedCell)
    then show ?thesis by (simp only: csvContent_def)
  qed
  moreover have "cell row h = quotedCell (fieldRepr row h)"
    by (rule cell_quotedCell)
  moreover have
    "cell [''Title'' \<mapsto> Str (''A '' @ [CHR 0x22] @ ''Test'' @ [CHR 0x22] @ '' Study'')] ''Title''
       = [CHR 0x22] @ ''A '' @ [CHR 0x22, CHR 0x22] @ ''Test'' @ [CHR 0x22, CHR 0x22] @ '' Study''
         @ [CHR 0x22]"
    by (simp add: cell_def getProp_def)
  ultimately show ?thesis by blast
qed

text \<open>
  C9. With an absent or empty record list \<open>exportToCSV\<close> leaves the page as it is: no
  blob is created, no link is clicked and nothing is downloaded.
\<close>

theorem empty_export_is_noop:
  "exportToCSV None filename w = w \<and> exportToCSV (Some []) filename w = w"
  by (simp add: exportToCSV_def)

text \<open>
  C10. Two record lists of equal length whose records agree, one by one, on the 33 header
  fields give the same CSV text, whatever their other fields (\<open>id\<close>, \<open>rawText\<close>) hold,
  and so \<open>exportToCSV\<close> does the same to the page for both.
\<close>

theorem csv_depends_on_header_fields_only:
  assumes "list_all2 (\<lambda>a b. \<forall>h \<in> set headers. a h = b h) xs ys"
  shows "csvContent xs = csvContent ys
       \<and> exportToCSV (Some xs) filename w = exportToCSV (Some ys) filename w"
proof -
  have "map (\<lambda>row. join '','' (map (cell row) headers)) xs
      = map (\<lambda>row. join '','' (map (cell row) headers)) ys"
    using assms
  proof (induction rule: list_all2_induct)
    case Nil
    show ?case by simp
  next
    case (Cons a xs b ys)
    have "\<forall>h \<in> set headers. cell a h = cell b h"
      using Cons.hyps(1) by (simp add: cell_def getProp_def)
    then have "map (cell a) headers = map (cell b) headers"
      by simp
    then have "join '','' (map (cell a) headers) = join '','' (map (cell b) headers)"
      by (rule arg_cong)
    with Cons.IH show ?case by simp
  qed
  then have "csvContent xs = csvContent ys"
    by (simp add: csvContent_def)
  moreover have "length xs = length ys"
    using assms by (rule list_all2_lengthD)
  ultimately show ?thesis
    by (simp add: exportToCSV_def)
qed

theorem csv_depends_on_header_fields_only_witness:
  "[''Title'' \<mapsto> Str ''T'', ''id'' \<mapsto> Str ''p1'', ''rawText'' \<mapsto> Str ''abstract one''] ''id''
     \<noteq> [''Title'' \<mapsto> Str ''T'', ''id'' \<mapsto> Str ''p2'', ''rawText'' \<mapsto> Str ''another text''] ''id''
   \<and> csvContent [[''Title'' \<mapsto> Str ''T'', ''id'' \<mapsto> Str ''p1'', ''rawText'' \<mapsto> Str ''abstract one'']]
     = csvContent [[''Title'' \<mapsto> Str ''T'', ''id'' \<mapsto> Str ''p2'', ''rawText'' \<mapsto> Str ''another text'']]"
proof -
  have h: "list_all2 (\<lambda>a b. \<forall>h \<in> set headers. a h = b h)
     [[''Title'' \<mapsto> Str ''T'', ''id'' \<mapsto> Str ''p1'', ''rawText'' \<mapsto> Str ''abstract one'']]
     [[''Title'' \<mapsto> Str ''T'', ''id'' \<mapsto> Str ''p2'', ''rawText'' \<mapsto> Str ''another text'']]"
    by (simp add: headers_def)
  from csv_depends_on_header_fields_only [OF h] show ?thesis by simp
qed

end
